theory Spec2Isabelle
  imports Main "HOL-Library.Sublist"
begin

section \<open>Python values, errors and strings\<close>

text \<open>
  The development embeds \<^verbatim>\<open>hutch_python/utils.py\<close> and
  \<^verbatim>\<open>hutch_python/namespace.py\<close>. Python objects live in a heap and are
  named by their position there, which plays the role of \<^verbatim>\<open>id(obj)\<close>. Exceptions are
  values of \<open>py_error\<close>; a function that may raise returns \<open>py_error + 'a\<close>, with
  \<open>Inl\<close> for the raised exception. Every constructor of \<open>py_error\<close> but the last
  stands for a subclass of Python's \<^verbatim>\<open>Exception\<close>. \<open>NoSuchObject\<close> is no Python
  exception: it is the outcome of reading a reference that lies outside the heap, which
  no Python program can hold. Strings are ASCII.
\<close>

type_synonym ref = nat

datatype py_error =
    ImportError | AttributeError | TypeError | ValueError | IndexError
  | NameError | SyntaxError | NoSuchObject

datatype pyval = VNone | VStr string | VInt int | VType string | VObj ref

datatype log_level = DEBUG | INFO | WARNING | ERROR | CRITICAL

text \<open>A log record is its level and its message; the arguments of a message template
  are left out.\<close>

type_synonym log_record = "log_level \<times> string"


text \<open>\<^verbatim>\<open>sub in s\<close> on strings.\<close>

fun py_in :: "string \<Rightarrow> string \<Rightarrow> bool" where
  "py_in sub [] = (sub = [])"
| "py_in sub (c # cs) = (prefix sub (c # cs) \<or> py_in sub cs)"

text \<open>\<^verbatim>\<open>s.split(sep)\<close> for a separator of one character; the result is never empty.\<close>

fun py_split :: "char \<Rightarrow> string \<Rightarrow> string list" where
  "py_split sep [] = [[]]"
| "py_split sep (c # cs) =
     (if c = sep then [] # py_split sep cs
      else (case py_split sep cs of
              [] \<Rightarrow> [[c]]
            | w # ws \<Rightarrow> (c # w) # ws))"

text \<open>\<^verbatim>\<open>sep.join(parts)\<close>.\<close>

fun py_join :: "string \<Rightarrow> string list \<Rightarrow> string" where
  "py_join sep [] = []"
| "py_join sep [p] = p"
| "py_join sep (p # q # ps) = p @ sep @ py_join sep (q # ps)"

text \<open>\<^verbatim>\<open>s.lower()\<close> on ASCII.\<close>

definition char_lower :: "char \<Rightarrow> char" where
  "char_lower c =
     (if (65::nat) \<le> of_char c \<and> of_char c \<le> (90::nat)
      then char_of (of_char c + (32::nat)) else c)"

definition lower :: "string \<Rightarrow> string" where
  "lower s = map char_lower s"

text \<open>A dictionary with string keys, in insertion order: \<^verbatim>\<open>d[k] = v\<close> replaces the value
  of a key that is present, in place, and appends a new key.\<close>

fun dict_set :: "(string \<times> 'v) list \<Rightarrow> string \<Rightarrow> 'v \<Rightarrow> (string \<times> 'v) list" where
  "dict_set [] k v = [(k, v)]"
| "dict_set ((k', v') # d) k v =
     (if k' = k then (k, v) # d else (k', v') # dict_set d k v)"

section \<open>utils.py\<close>

text \<open>
  A module object: what \<^verbatim>\<open>__all__\<close> holds when it is there, what \<^verbatim>\<open>dir(module)\<close>
  lists, and the module's attributes. The environment stands for the interpreter:
  \<^verbatim>\<open>importlib.import_module\<close>, the built-in \<^verbatim>\<open>eval\<close>, and calling an object without
  arguments.
\<close>

record pymodule =
  mod_all :: "string list option"
  mod_dir :: "string list"
  mod_attrs :: "(string \<times> pyval) list"

record env =
  modules :: "string \<Rightarrow> py_error + pymodule"
  py_eval :: "string \<Rightarrow> py_error + pyval"
  py_call :: "pyval \<Rightarrow> py_error + pyval"

text \<open>\<^verbatim>\<open>importlib.import_module(name)\<close>; the empty name raises \<^verbatim>\<open>ValueError\<close>.\<close>

definition import_module :: "env \<Rightarrow> string \<Rightarrow> py_error + pymodule" where
  "import_module e module_name =
     (if module_name = [] then Inl ValueError else modules e module_name)"

definition module_getattr :: "pymodule \<Rightarrow> string \<Rightarrow> py_error + pyval" where
  "module_getattr m a =
     (case map_of (mod_attrs m) a of None \<Rightarrow> Inl AttributeError | Some v \<Rightarrow> Inr v)"

definition find_object :: "env \<Rightarrow> string \<Rightarrow> py_error + pyval" where
  "find_object e obj_path =
     (let parts = py_split CHR ''.'' obj_path;
          module_path = py_join ''.'' (butlast parts);
          class_name = last parts
      in case import_module e module_path of
           Inl err \<Rightarrow> Inl err
         | Inr m \<Rightarrow> module_getattr m class_name)"

definition find_class :: "env \<Rightarrow> string \<Rightarrow> py_error + pyval" where
  "find_class e class_path =
     (if py_in ''.'' class_path then find_object e class_path
      else py_eval e class_path)"






section \<open>Objects\<close>

text \<open>
  What \<^verbatim>\<open>class_namespace\<close> reads from an object: the names of the classes it is an instance
  of (its type and that type's bases), whether its type defines \<^verbatim>\<open>__call__\<close>, its
  \<^verbatim>\<open>name\<close> attribute, its \<^verbatim>\<open>component_names\<close>, its other attributes that hold
  objects, its hash (\<open>None\<close> when the type sets
  \<^verbatim>\<open>__hash__ = None\<close>) and its \<^verbatim>\<open>__eq__\<close> method, where \<open>None\<close> stands for
  \<^verbatim>\<open>NotImplemented\<close>. An attribute that the object lacks is \<open>None\<close>.
\<close>

record pyobj =
  py_types :: "string list"
  has_call :: bool
  obj_name :: "string option"
  component_names :: "string list option"
  attrs :: "(string \<times> ref) list"
  py_hash :: "int option"
  py_eq :: "ref \<Rightarrow> bool option"

type_synonym heap = "pyobj list"

definition deref :: "heap \<Rightarrow> ref \<Rightarrow> py_error + pyobj" where
  "deref h r = (if r < length h then Inr (h ! r) else Inl NoSuchObject)"

definition Device :: string where
  "Device = ''ophyd.device.Device''"

definition FunctionType :: string where
  "FunctionType = ''function''"

text \<open>\<^verbatim>\<open>isinstance(obj, cls)\<close>: raises \<^verbatim>\<open>TypeError\<close> when \<open>cls\<close> is not a type.\<close>

definition isinstance :: "heap \<Rightarrow> ref \<Rightarrow> pyval \<Rightarrow> py_error + bool" where
  "isinstance h obj cls =
     (case deref h obj of
        Inl err \<Rightarrow> Inl err
      | Inr ob \<Rightarrow>
          (case cls of
             VType t \<Rightarrow> Inr (t \<in> set (py_types ob))
           | _ \<Rightarrow> Inl TypeError))"

text \<open>\<^verbatim>\<open>inspect.isfunction(obj)\<close> is \<^verbatim>\<open>isinstance(obj, types.FunctionType)\<close>.\<close>

definition isfunction :: "heap \<Rightarrow> ref \<Rightarrow> py_error + bool" where
  "isfunction h obj = isinstance h obj (VType FunctionType)"

text \<open>\<^verbatim>\<open>getattr(obj, comp_name)\<close>.\<close>

definition getattr :: "heap \<Rightarrow> ref \<Rightarrow> string \<Rightarrow> py_error + ref" where
  "getattr h obj a =
     (case deref h obj of
        Inl err \<Rightarrow> Inl err
      | Inr ob \<Rightarrow>
          (case map_of (attrs ob) a of
             None \<Rightarrow> Inl AttributeError
           | Some sub_obj \<Rightarrow> Inr sub_obj))"

text \<open>\<^verbatim>\<open>a == b\<close> for two different objects: \<^verbatim>\<open>a.__eq__(b)\<close>, then the reflected
  \<^verbatim>\<open>b.__eq__(a)\<close>, then the default, which is identity.\<close>

definition py_equal :: "heap \<Rightarrow> ref \<Rightarrow> ref \<Rightarrow> bool" where
  "py_equal h a b =
     (case py_eq (h ! a) b of
        Some v \<Rightarrow> v
      | None \<Rightarrow> (case py_eq (h ! b) a of Some v \<Rightarrow> v | None \<Rightarrow> False))"

text \<open>
  \<^verbatim>\<open>obj in cache\<close> for the built-in \<^verbatim>\<open>set\<close>: the object is hashed (unhashable objects
  raise \<^verbatim>\<open>TypeError\<close>), and an element matches when it has the same hash and is the
  same object or compares equal.
\<close>

definition set_contains :: "heap \<Rightarrow> ref list \<Rightarrow> ref \<Rightarrow> py_error + bool" where
  "set_contains h cache obj =
     (case deref h obj of
        Inl err \<Rightarrow> Inl err
      | Inr ob \<Rightarrow>
          (case py_hash ob of
             None \<Rightarrow> Inl TypeError
           | Some hv \<Rightarrow>
               Inr (list_ex (\<lambda>y. y = obj \<or>
                      (y < length h \<and> py_hash (h ! y) = Some hv \<and> py_equal h y obj)) cache)))"

section \<open>namespace.py: composite expansion\<close>

type_synonym scope = "(string \<times> ref) list"

type_synonym expansion = "scope \<times> ref list"

text \<open>
  The helper \<^verbatim>\<open>accumulate(obj, scope_objs, cache)\<close> of \<^verbatim>\<open>class_namespace\<close>. The
  dictionary and the set are mutated in place by the source; here they are passed in
  and returned. \<open>accumulate_comps\<close> is the loop over the component names.
\<close>

function accumulate :: "heap \<Rightarrow> ref \<Rightarrow> expansion \<Rightarrow> py_error + expansion"
  and accumulate_comps :: "heap \<Rightarrow> ref \<Rightarrow> string list \<Rightarrow> expansion \<Rightarrow> py_error + expansion"
where
  "accumulate h obj (scope_objs, cache) =
     (case set_contains h cache obj of
        Inl err \<Rightarrow> Inl err
      | Inr True \<Rightarrow> Inr (scope_objs, cache)
      | Inr False \<Rightarrow>
          (case accumulate_comps h obj
                  (case component_names (h ! obj) of None \<Rightarrow> [] | Some ns \<Rightarrow> ns)
                  (scope_objs, obj # cache) of
             Inl err \<Rightarrow> Inl err
           | Inr (scope_objs', cache') \<Rightarrow>
               (case obj_name (h ! obj) of
                  None \<Rightarrow> Inl AttributeError
                | Some n \<Rightarrow>
                    if n \<notin> fst ` set scope_objs'
                    then Inr (scope_objs' @ [(n, obj)], cache')
                    else Inr (scope_objs', cache'))))"
| "accumulate_comps h obj [] st = Inr st"
| "accumulate_comps h obj (comp_name # rest) st =
     (case getattr h obj comp_name of
        Inl err \<Rightarrow> Inl err
      | Inr sub_obj \<Rightarrow>
          (case accumulate h sub_obj st of
             Inl err \<Rightarrow> Inl err
           | Inr st' \<Rightarrow> accumulate_comps h obj rest st'))"
  by pat_completeness auto

text \<open>
  The recursion ends because every call that goes past the test on the cache adds an
  object of the heap that the cache did not hold. The number of heap objects outside
  the cache is the measure; that a call never shrinks the cache is needed for the
  loop, and is proved first on the domain of the function.
\<close>

definition unvisited :: "heap \<Rightarrow> ref list \<Rightarrow> nat" where
  "unvisited h cache = card ({..<length h} - set cache)"

lemma set_contains_False:
  "set_contains h cache obj = Inr False \<Longrightarrow> obj \<notin> set cache \<and> obj < length h"
  by (auto simp: set_contains_def deref_def list_ex_iff
           split: sum.splits option.splits if_splits)

lemma unvisited_less:
  "obj \<notin> set cache \<Longrightarrow> obj < length h \<Longrightarrow> unvisited h (obj # cache) < unvisited h cache"
  unfolding unvisited_def by (rule psubset_card_mono) auto

lemma unvisited_mono:
  "set cache \<subseteq> set cache' \<Longrightarrow> unvisited h cache' \<le> unvisited h cache"
  unfolding unvisited_def by (rule card_mono) auto

lemma accumulate_cache_mono_dom:
  "accumulate_accumulate_comps_dom (Inl (h, obj, st)) \<Longrightarrow>
     accumulate h obj st = Inr st' \<Longrightarrow> set (snd st) \<subseteq> set (snd st')"
  "accumulate_accumulate_comps_dom (Inr (h, obj, cs, st)) \<Longrightarrow>
     accumulate_comps h obj cs st = Inr st' \<Longrightarrow> set (snd st) \<subseteq> set (snd st')"
proof (induction h obj st and h obj cs st arbitrary: st' and st'
       rule: accumulate_accumulate_comps.pinduct)
  case (1 h obj scope_objs cache)
  show ?case
  proof (cases "set_contains h cache obj")
    case (Inl err)
    with 1 show ?thesis by (simp add: accumulate.psimps)
  next
    case (Inr b)
    show ?thesis
    proof (cases b)
      case True
      with 1 Inr show ?thesis by (auto simp: accumulate.psimps)
    next
      case False
      let ?cs = "case component_names (h ! obj) of None \<Rightarrow> [] | Some ns \<Rightarrow> ns"
      from 1(3) Inr False obtain st'' where
        r: "accumulate_comps h obj ?cs (scope_objs, obj # cache) = Inr st''"
        and s: "snd st' = snd st''"
        by (auto simp: accumulate.psimps[OF 1(1)] split: sum.splits option.splits if_splits)
      from 1(2)[of b st''] Inr False r have "set (obj # cache) \<subseteq> set (snd st'')" by simp
      with s show ?thesis by auto
    qed
  qed
next
  case (2 h obj st)
  then show ?case by (simp add: accumulate_comps.psimps)
next
  case (3 h obj comp_name rest st)
  from 3(4) obtain sub_obj st1 where
    g: "getattr h obj comp_name = Inr sub_obj" and a: "accumulate h sub_obj st = Inr st1"
    and r: "accumulate_comps h obj rest st1 = Inr st'"
    by (auto simp: accumulate_comps.psimps(2)[OF 3(1)] split: sum.splits)
  from 3(2)[OF g a] 3(3)[OF g a r] show ?case by blast
qed

termination accumulate
  apply (relation "measures
     [\<lambda>x. case x of Inl (h, obj, st) \<Rightarrow> unvisited h (snd st)
                  | Inr (h, obj, cs, st) \<Rightarrow> unvisited h (snd st),
      \<lambda>x. case x of Inl _ \<Rightarrow> 0 | Inr (h, obj, cs, st) \<Rightarrow> Suc (length cs)]")
     apply simp
  subgoal for h obj scope_objs cache b
    using set_contains_False[of h cache obj] unvisited_less[of obj cache h] by simp
  subgoal by simp
  subgoal for h obj comp_name rest st sub_obj st'
    using accumulate_cache_mono_dom(1)[of h sub_obj st st']
          unvisited_mono[of "snd st" "snd st'" h]
    by auto
  done

text \<open>The loop \<^verbatim>\<open>for name, obj in scope_objs.copy().items()\<close> of \<^verbatim>\<open>class_namespace\<close>:
  it runs over the bindings the dictionary had before the loop.\<close>

fun expand_loop :: "heap \<Rightarrow> scope \<Rightarrow> expansion \<Rightarrow> py_error + expansion" where
  "expand_loop h [] st = Inr st"
| "expand_loop h ((name, obj) # rest) st =
     (case isinstance h obj (VType Device) of
        Inl err \<Rightarrow> Inl err
      | Inr True \<Rightarrow>
          (case accumulate h obj st of
             Inl err \<Rightarrow> Inl err
           | Inr st' \<Rightarrow> expand_loop h rest st')
      | Inr False \<Rightarrow> expand_loop h rest st)"

text \<open>Lines 50 to 65: the cache starts empty, and the dictionary is what the expansion
  leaves.\<close>

definition expand :: "heap \<Rightarrow> scope \<Rightarrow> py_error + scope" where
  "expand h scope_objs =
     (case expand_loop h scope_objs (scope_objs, []) of
        Inl err \<Rightarrow> Inl err
      | Inr (scope_objs', cache) \<Rightarrow> Inr scope_objs')"

section \<open>namespace.py: the type-filtered builder\<close>

text \<open>
  Modelled from the spec: the class \<^verbatim>\<open>IterableNamespace\<close> is imported from
  \<^verbatim>\<open>utils.py\<close>, but the \<^verbatim>\<open>utils.py\<close> at hand does not define it. The spec describes
  the namespace as an attribute-accessible container that is iterated in the order in
  which its attributes were set, one store behind both accesses: here a dictionary from
  attribute names to nodes, a node being an object or a nested namespace.
  \<^verbatim>\<open>class_namespace\<close> sets attributes on the one namespace that it makes and reads
  none, so that this namespace is passed along as its dictionary.
\<close>

datatype node = Obj ref | Space "(string \<times> node) list"

type_synonym namespace = "(string \<times> node) list"

definition IterableNamespace :: namespace where
  "IterableNamespace = []"

definition setattr :: "namespace \<Rightarrow> string \<Rightarrow> node \<Rightarrow> namespace" where
  "setattr ns a v = dict_set ns a v"

text \<open>The loop of lines 67 to 76 over the expanded dictionary.\<close>

fun include_loop ::
  "heap \<Rightarrow> pyval \<Rightarrow> scope \<Rightarrow> namespace \<times> log_record list \<Rightarrow>
     (py_error + namespace) \<times> log_record list"
where
  "include_loop h cls [] (class_space, log) = (Inr class_space, log)"
| "include_loop h cls ((name, obj) # rest) (class_space, log) =
     (case (if cls = VStr ''function'' then isfunction h obj else isinstance h obj cls) of
        Inl err \<Rightarrow> (Inl err, log)
      | Inr include \<Rightarrow>
          if include
          then include_loop h cls rest
                 (setattr class_space name (Obj obj),
                  log @ [(DEBUG, ''Include %s in cls=%s namespace'')])
          else include_loop h cls rest (class_space, log))"

text \<open>
  \<^verbatim>\<open>class_namespace(cls, scope)\<close>. The scope resolver \<^verbatim>\<open>extract_objs(scope=...)\<close> that it
  calls is not the \<^verbatim>\<open>extract_objs\<close> of the \<^verbatim>\<open>utils.py\<close> at hand; the dictionary it
  returns is the argument \<open>scope_objs\<close>. The log is passed in and returned with the
  records of this call appended; the result is the namespace or the exception that
  reaches the caller.
\<close>

definition class_namespace ::
  "env \<Rightarrow> heap \<Rightarrow> pyval \<Rightarrow> scope \<Rightarrow> log_record list \<Rightarrow>
     (py_error + namespace) \<times> log_record list"
where
  "class_namespace e h cls scope_objs log0 =
     (let log1 = log0 @ [(DEBUG, ''Create class_namespace cls=%s, scope=%s'')];
          class_space = IterableNamespace;
          build = (\<lambda>cls'. case expand h scope_objs of
                     Inl err \<Rightarrow> (Inl err, log1)
                   | Inr scope_objs' \<Rightarrow> include_loop h cls' scope_objs' (class_space, log1))
      in case cls of
           VStr s \<Rightarrow>
             if s \<noteq> ''function''
             then (case find_class e s of
                     Inl exc \<Rightarrow>
                       (Inr class_space,
                        log1 @ [(ERROR, ''Type '' @ s @ '' could not be loaded''),
                                (DEBUG, ''exc'')])
                   | Inr cls' \<Rightarrow> build cls')
             else build cls
         | _ \<Rightarrow> build cls)"

section \<open>namespace.py: the metadata builder\<close>

text \<open>
  \<^verbatim>\<open>metadata_namespace\<close> reads and sets attributes under computed names, on the
  namespaces it creates and on whatever object its walk reaches. Here an object is its
  attribute dictionary, objects live in a store and are named by their address there,
  and an attribute holds \<^verbatim>\<open>None\<close>, a string, a number or the address of an object:
  the scope objects, their metadata records and the namespaces are all objects of the
  store. \<open>m_setattr\<close> is what \<^verbatim>\<open>setattr\<close> on the object raises, if anything (instances
  of classes with \<^verbatim>\<open>__slots__\<close> and of built-in types refuse new attributes).
  The names that every Python object has through its class, such as \<^verbatim>\<open>__class__\<close>,
  are left out, and so are the attributes of \<^verbatim>\<open>None\<close>, strings and numbers: none of
  them accepts an attribute, and a walk that reaches one ends in an exception.
\<close>

datatype mval = MNone | MStr string | MInt int | MRef nat

record mobj =
  m_attrs :: "(string \<times> mval) list"
  m_setattr :: "py_error option"

type_synonym store = "mobj list"

type_synonym mscope = "(string \<times> mval) list"

text \<open>The built-in functions \<^verbatim>\<open>hasattr(v, a)\<close>, \<^verbatim>\<open>getattr(v, a)\<close>,
  \<^verbatim>\<open>getattr(v, a, None)\<close> and \<^verbatim>\<open>setattr(v, a, x)\<close>.\<close>

definition obj_hasattr :: "store \<Rightarrow> mval \<Rightarrow> string \<Rightarrow> py_error + bool" where
  "obj_hasattr st v a =
     (case v of
        MRef r \<Rightarrow>
          if r < length st then Inr (map_of (m_attrs (st ! r)) a \<noteq> None)
          else Inl NoSuchObject
      | _ \<Rightarrow> Inr False)"

definition obj_getattr :: "store \<Rightarrow> mval \<Rightarrow> string \<Rightarrow> py_error + mval" where
  "obj_getattr st v a =
     (case v of
        MRef r \<Rightarrow>
          if r < length st
          then (case map_of (m_attrs (st ! r)) a of
                  None \<Rightarrow> Inl AttributeError
                | Some x \<Rightarrow> Inr x)
          else Inl NoSuchObject
      | _ \<Rightarrow> Inl AttributeError)"

definition obj_getattr_default :: "store \<Rightarrow> mval \<Rightarrow> string \<Rightarrow> py_error + mval" where
  "obj_getattr_default st v a =
     (case v of
        MRef r \<Rightarrow>
          if r < length st
          then (case map_of (m_attrs (st ! r)) a of
                  None \<Rightarrow> Inr MNone
                | Some x \<Rightarrow> Inr x)
          else Inl NoSuchObject
      | _ \<Rightarrow> Inr MNone)"

definition obj_setattr :: "store \<Rightarrow> mval \<Rightarrow> string \<Rightarrow> mval \<Rightarrow> py_error + store" where
  "obj_setattr st v a x =
     (case v of
        MRef r \<Rightarrow>
          if r < length st
          then (case m_setattr (st ! r) of
                  Some err \<Rightarrow> Inl err
                | None \<Rightarrow>
                    Inr (st[r := (st ! r)\<lparr>m_attrs := dict_set (m_attrs (st ! r)) a x\<rparr>]))
          else Inl NoSuchObject
      | _ \<Rightarrow> Inl AttributeError)"

text \<open>
  Modelled from the spec: \<^verbatim>\<open>IterableNamespace()\<close> makes a new object without
  attributes that accepts any attribute; the class is not defined in the \<^verbatim>\<open>utils.py\<close>
  at hand. The result is the address of the new object and the store that holds it.
\<close>

definition new_namespace :: "store \<Rightarrow> mval \<times> store" where
  "new_namespace st = (MRef (length st), st @ [\<lparr>m_attrs = [], m_setattr = None\<rparr>])"

text \<open>The comprehension \<^verbatim>\<open>[getattr(obj.md, filt, None) for filt in md]\<close> of line 108,
  \<open>mdrec\<close> being \<^verbatim>\<open>obj.md\<close>.\<close>

fun md_values :: "store \<Rightarrow> mval \<Rightarrow> string list \<Rightarrow> py_error + mval list" where
  "md_values st mdrec [] = Inr []"
| "md_values st mdrec (filt # md) =
     (case obj_getattr_default st mdrec filt of
        Inl err \<Rightarrow> Inl err
      | Inr v \<Rightarrow>
          (case md_values st mdrec md of
             Inl err \<Rightarrow> Inl err
           | Inr vs \<Rightarrow> Inr (v # vs)))"

text \<open>
  The keys of one object, lines 107 to 114: from its metadata record, a missing field
  giving \<^verbatim>\<open>None\<close>, or else from its name; \<open>None\<close> is the \<^verbatim>\<open>continue\<close> of line 112.
\<close>

definition raw_keys ::
  "store \<Rightarrow> mval \<Rightarrow> string list \<Rightarrow> string \<Rightarrow> py_error + mval list option"
where
  "raw_keys st obj md name =
     (case obj_hasattr st obj ''md'' of
        Inl err \<Rightarrow> Inl err
      | Inr True \<Rightarrow>
          (case obj_getattr st obj ''md'' of
             Inl err \<Rightarrow> Inl err
           | Inr mdrec \<Rightarrow>
               (case md_values st mdrec md of
                  Inl err \<Rightarrow> Inl err
                | Inr vs \<Rightarrow> Inr (Some vs)))
      | Inr False \<Rightarrow>
          Inr (if \<not> py_in ''_'' name then None
               else Some (map MStr (take (length md) (py_split CHR ''_'' name)))))"

text \<open>Lines 119 to 124.\<close>

definition lower_key :: "mval \<Rightarrow> mval" where
  "lower_key key = (case key of MStr s \<Rightarrow> MStr (lower s) | _ \<Rightarrow> key)"

text \<open>
  Modelled from the spec: the helper \<^verbatim>\<open>strip_prefix\<close> is imported from \<^verbatim>\<open>utils.py\<close>,
  but the \<^verbatim>\<open>utils.py\<close> at hand does not define it. \<^verbatim>\<open>strip_prefix(name, key)\<close> strips
  the key's textual prefix from the name, together with the separator that follows it
  (\<^verbatim>\<open>tst_det_1\<close> becomes \<^verbatim>\<open>1\<close> once \<^verbatim>\<open>tst\<close> and \<^verbatim>\<open>det\<close> are stripped); the key is
  matched as a case-insensitive prefix, and a name that does not start with the key is
  passed through.
\<close>

definition strip_prefix :: "string \<Rightarrow> string \<Rightarrow> string" where
  "strip_prefix name strip_text =
     (if prefix (lower strip_text) (lower name)
      then (case drop (length strip_text) name of
              [] \<Rightarrow> []
            | c # rest \<Rightarrow> if c = CHR ''_'' then rest else c # rest)
      else name)"

text \<open>
  Lines 127 to 134: the walk along the keys, from \<open>upper_space\<close> on. It returns the
  object reached and the name that is left, and the store with the namespaces it has
  created. Where a key is bound already, the walk goes on with what is bound there, a
  namespace or any other object. A key that is neither \<^verbatim>\<open>None\<close> nor a string makes
  \<^verbatim>\<open>hasattr\<close> raise \<^verbatim>\<open>TypeError\<close>.
\<close>

fun walk ::
  "store \<Rightarrow> mval \<Rightarrow> mval list \<Rightarrow> string \<Rightarrow> (py_error + mval \<times> string) \<times> store"
where
  "walk st upper_space [] name = (Inr (upper_space, name), st)"
| "walk st upper_space (MNone # keys) name = (Inr (upper_space, name), st)"
| "walk st upper_space (MStr key # keys) name =
     (case obj_hasattr st upper_space key of
        Inl err \<Rightarrow> (Inl err, st)
      | Inr True \<Rightarrow>
          (case obj_getattr st upper_space key of
             Inl err \<Rightarrow> (Inl err, st)
           | Inr sub \<Rightarrow> walk st sub keys (strip_prefix name key))
      | Inr False \<Rightarrow>
          (case obj_setattr (snd (new_namespace st)) upper_space key
                  (fst (new_namespace st)) of
             Inl err \<Rightarrow> (Inl err, snd (new_namespace st))
           | Inr st' \<Rightarrow>
               (case obj_getattr st' upper_space key of
                  Inl err \<Rightarrow> (Inl err, st')
                | Inr sub \<Rightarrow> walk st' sub keys (strip_prefix name key))))"
| "walk st upper_space (MInt i # keys) name = (Inl TypeError, st)"
| "walk st upper_space (MRef r # keys) name = (Inl TypeError, st)"

text \<open>Lines 127 to 135: the walk, and the binding of the object where it ends.\<close>

definition place ::
  "store \<Rightarrow> mval \<Rightarrow> mval list \<Rightarrow> string \<Rightarrow> mval \<Rightarrow> (py_error + unit) \<times> store"
where
  "place st metadata_space keys name obj =
     (case walk st metadata_space keys name of
        (Inl err, st1) \<Rightarrow> (Inl err, st1)
      | (Inr (upper_space, name'), st1) \<Rightarrow>
          (case obj_setattr st1 upper_space name' obj of
             Inl err \<Rightarrow> (Inl err, st1)
           | Inr st2 \<Rightarrow> (Inr (), st2)))"

text \<open>The loop of lines 105 to 135; \<^verbatim>\<open>raw_keys[0]\<close> raises on the empty list.\<close>

fun metadata_loop ::
  "string list \<Rightarrow> mscope \<Rightarrow> mval \<Rightarrow> store \<times> log_record list \<Rightarrow>
     (py_error + unit) \<times> store \<times> log_record list"
where
  "metadata_loop md [] metadata_space (st, log) = (Inr (), st, log)"
| "metadata_loop md ((name, obj) # rest) metadata_space (st, log) =
     (case raw_keys st obj md name of
        Inl err \<Rightarrow> (Inl err, st, log)
      | Inr None \<Rightarrow> metadata_loop md rest metadata_space (st, log)
      | Inr (Some []) \<Rightarrow> (Inl IndexError, st, log)
      | Inr (Some (MNone # _)) \<Rightarrow> metadata_loop md rest metadata_space (st, log)
      | Inr (Some (k # ks)) \<Rightarrow>
          (case place st metadata_space (map lower_key (k # ks)) name obj of
             (Inl err, st') \<Rightarrow>
               (Inl err, st', log @ [(DEBUG, ''Add %s to metadata namespace'')])
           | (Inr u, st') \<Rightarrow>
               metadata_loop md rest metadata_space
                 (st', log @ [(DEBUG, ''Add %s to metadata namespace'')])))"

text \<open>
  \<^verbatim>\<open>metadata_namespace(md, scope)\<close>, with the resolved scope as argument. The store and
  the log are passed in and returned as the call leaves them; the result is the
  address of the namespace built, or the exception that reaches the caller.
\<close>

definition metadata_namespace ::
  "string list \<Rightarrow> mscope \<Rightarrow> store \<times> log_record list \<Rightarrow>
     (py_error + mval) \<times> store \<times> log_record list"
where
  "metadata_namespace md scope_objs state =
     (case metadata_loop md scope_objs (fst (new_namespace (fst state)))
             (snd (new_namespace (fst state)),
              snd state @ [(DEBUG, ''Create metadata_namespace md=%s, scope=%s'')]) of
        (Inl err, st', log') \<Rightarrow> (Inl err, st', log')
      | (Inr u, st', log') \<Rightarrow> (Inr (fst (new_namespace (fst state))), st', log'))"

section \<open>Notions used in the properties\<close>

text \<open>What an expansion does to the dictionary: bindings are appended, each of an
  object of the heap under its \<^verbatim>\<open>name\<close>, which was not bound before.\<close>

definition extends :: "heap \<Rightarrow> scope \<Rightarrow> scope \<Rightarrow> bool" where
  "extends h p p' \<longleftrightarrow>
     (\<exists>added. p' = p @ added \<and> distinct (map fst added) \<and>
        (\<forall>x \<in> set added. snd x < length h \<and> obj_name (h ! snd x) = Some (fst x) \<and>
                          fst x \<notin> fst ` set p))"

text \<open>The bindings of a dictionary as attributes of a namespace, in the same order.\<close>

definition bind_all :: "scope \<Rightarrow> namespace" where
  "bind_all p = map (\<lambda>x. (fst x, Obj (snd x))) p"

text \<open>The keys that the walk consumes, up to the first that is no string.\<close>

fun consumed :: "mval list \<Rightarrow> string list" where
  "consumed [] = []"
| "consumed (MStr key # keys) = key # consumed keys"
| "consumed (_ # keys) = []"

text \<open>
  The objects that an expansion has to reach are the devices bound in the scope and,
  from there, the components of every object reached. The expansion binds each of
  them exactly once when nothing gets in the way: no two objects compare equal
  (\<open>identity_eq\<close>), no two carry the same \<^verbatim>\<open>name\<close> (\<open>names_distinct\<close>), and the scope
  binds an object that has a \<^verbatim>\<open>name\<close> under that name, and a name that some object
  carries to that object (\<open>canonical\<close>). It returns, with no exception, when the
  objects it reaches are hashable, carry a \<^verbatim>\<open>name\<close> and hold the components they list
  (\<open>well_formed\<close>, on a set closed under components).
\<close>

definition components :: "heap \<Rightarrow> ref \<Rightarrow> ref list" where
  "components h r =
     List.map_filter (map_of (attrs (h ! r)))
       (case component_names (h ! r) of None \<Rightarrow> [] | Some ns \<Rightarrow> ns)"

inductive reach :: "heap \<Rightarrow> scope \<Rightarrow> ref \<Rightarrow> bool" for h p where
  top: "x \<in> set p \<Longrightarrow> isinstance h (snd x) (VType Device) = Inr True \<Longrightarrow> reach h p (snd x)"
| sub: "reach h p r \<Longrightarrow> s \<in> set (components h r) \<Longrightarrow> reach h p s"

definition identity_eq :: "heap \<Rightarrow> bool" where
  "identity_eq h \<longleftrightarrow>
     (\<forall>a \<in> {..<length h}. \<forall>b \<in> {..<length h}.
        a \<noteq> b \<longrightarrow> py_hash (h ! a) \<noteq> py_hash (h ! b) \<or> \<not> py_equal h a b)"

definition names_distinct :: "heap \<Rightarrow> bool" where
  "names_distinct h \<longleftrightarrow>
     (\<forall>a \<in> {..<length h}. \<forall>b \<in> {..<length h}.
        obj_name (h ! a) \<noteq> None \<and> obj_name (h ! a) = obj_name (h ! b) \<longrightarrow> a = b)"

definition canonical :: "heap \<Rightarrow> scope \<Rightarrow> bool" where
  "canonical h p \<longleftrightarrow>
     distinct (map fst p) \<and>
     (\<forall>x \<in> set p. \<forall>r \<in> {..<length h}.
        (obj_name (h ! r) = Some (fst x) \<longrightarrow> r = snd x) \<and>
        (r = snd x \<longrightarrow> obj_name (h ! r) = None \<or> obj_name (h ! r) = Some (fst x)))"

definition well_formed :: "heap \<Rightarrow> ref set \<Rightarrow> bool" where
  "well_formed h S \<longleftrightarrow>
     (\<forall>r \<in> S. r < length h \<and> py_hash (h ! r) \<noteq> None \<and> obj_name (h ! r) \<noteq> None \<and>
        (\<forall>c \<in> set (case component_names (h ! r) of None \<Rightarrow> [] | Some ns \<Rightarrow> ns).
           \<exists>s \<in> S. map_of (attrs (h ! r)) c = Some s))"

text \<open>An object is done when its components are in the cache and it is bound under
  its \<^verbatim>\<open>name\<close>; a step of the expansion keeps the cache within the heap, only adds to
  it, and leaves every object it has added done.\<close>

definition done_ok :: "heap \<Rightarrow> scope \<Rightarrow> ref list \<Rightarrow> ref \<Rightarrow> bool" where
  "done_ok h p c r \<longleftrightarrow>
     set (components h r) \<subseteq> set c \<and> (\<exists>n. obj_name (h ! r) = Some n \<and> (n, r) \<in> set p)"

definition step_ok :: "heap \<Rightarrow> expansion \<Rightarrow> expansion \<Rightarrow> bool" where
  "step_ok h st st' \<longleftrightarrow>
     set (snd st) \<subseteq> set (snd st') \<and> set (snd st') \<subseteq> {..<length h} \<and>
     (\<forall>r \<in> set (snd st') - set (snd st). done_ok h (fst st') (snd st') r)"

section \<open>Example inputs\<close>

text \<open>An interpreter that knows the modules \<^verbatim>\<open>num\<close> and \<^verbatim>\<open>ha\<close>, and evaluates
  \<^verbatim>\<open>5\<close> and \<^verbatim>\<open>int\<close>; every other import and evaluation fails.\<close>

definition numpy_env :: env where
  "numpy_env =
     \<lparr>modules = (\<lambda>n. if n = ''num''
                   then Inr \<lparr>mod_all = Some [''one''], mod_dir = [''_two'', ''one''],
                             mod_attrs = [(''one'', VInt 1), (''_two'', VInt 2)]\<rparr>
                   else if n = ''ha''
                   then Inr \<lparr>mod_all = None, mod_dir = [''_hidden'', ''smile''],
                             mod_attrs = [(''_hidden'', VNone), (''smile'', VStr ''ok'')]\<rparr>
                   else Inl ImportError),
      py_eval = (\<lambda>s. if s = ''5'' then Inr (VInt 5)
                      else if s = ''int'' then Inr (VType ''int'')
                      else Inl NameError),
      py_call = (\<lambda>v. Inl TypeError)\<rparr>"

text \<open>An object with nothing on it but a hash and the default equality.\<close>

definition plain_obj :: pyobj where
  "plain_obj =
     \<lparr>py_types = [''object''], has_call = False, obj_name = None, component_names = None,
      attrs = [], py_hash = Some 0, py_eq = (\<lambda>_. None)\<rparr>"

text \<open>
  Two devices that list each other as a component, a plain function and an instance
  of a class that defines \<^verbatim>\<open>__call__\<close>:
  \<^verbatim>\<open>a = Device(name='a'); b = Device(name='b'); a.b = b; b.a = a\<close>.
\<close>

definition cycle_heap :: heap where
  "cycle_heap =
     [plain_obj\<lparr>py_types := [Device, ''object''], obj_name := Some ''a'',
                component_names := Some [''b''], attrs := [(''b'', 1)], py_hash := Some 10\<rparr>,
      plain_obj\<lparr>py_types := [Device, ''object''], obj_name := Some ''b'',
                component_names := Some [''a''], attrs := [(''a'', 0)], py_hash := Some 11\<rparr>,
      plain_obj\<lparr>py_types := [FunctionType, ''object''], has_call := True, py_hash := Some 12\<rparr>,
      plain_obj\<lparr>py_types := [''Knob'', ''object''], has_call := True, py_hash := Some 13\<rparr>]"

text \<open>
  A device with two components that are different objects, have the same hash and
  compare equal, as instances of a class with
  \<^verbatim>\<open>__eq__ = lambda self, other: True\<close> and \<^verbatim>\<open>__hash__ = lambda self: 7\<close> do.
\<close>

definition equal_heap :: heap where
  "equal_heap =
     [plain_obj\<lparr>py_types := [Device, ''object''], obj_name := Some ''a'',
                component_names := Some [''l'', ''r''], attrs := [(''l'', 1), (''r'', 2)],
                py_hash := Some 10\<rparr>,
      plain_obj\<lparr>obj_name := Some ''l'', py_hash := Some 7, py_eq := (\<lambda>_. Some True)\<rparr>,
      plain_obj\<lparr>obj_name := Some ''r'', py_hash := Some 7, py_eq := (\<lambda>_. Some True)\<rparr>]"

text \<open>
  A store of four objects: a metadata record with \<^verbatim>\<open>beamline = 'MFX'\<close> and
  \<^verbatim>\<open>stand = None\<close>, an object whose \<^verbatim>\<open>md\<close> is that record, and two objects without
  attributes.
\<close>

definition md_store :: store where
  "md_store =
     [\<lparr>m_attrs = [(''beamline'', MStr ''MFX''), (''stand'', MNone)], m_setattr = None\<rparr>,
      \<lparr>m_attrs = [(''md'', MRef 0)], m_setattr = None\<rparr>,
      \<lparr>m_attrs = [], m_setattr = None\<rparr>,
      \<lparr>m_attrs = [], m_setattr = None\<rparr>]"

section \<open>Properties of utils.py\<close>

lemma py_in_char: "py_in [c] s \<longleftrightarrow> c \<in> set s"
  by (induction s) auto






text \<open>
  C9. A class path without a dot is handed to \<^verbatim>\<open>eval\<close>, and \<^verbatim>\<open>find_class\<close> returns
  what the evaluation yields, a type or not, or raises what it raises; the lookup by
  dotted path, \<^verbatim>\<open>find_object\<close>, is taken exactly when the path contains a dot.
\<close>

theorem find_class_branches:
  "(CHR ''.'' \<notin> set class_path \<longrightarrow> find_class e class_path = py_eval e class_path) \<and>
   (CHR ''.'' \<in> set class_path \<longrightarrow> find_class e class_path = find_object e class_path)"
  by (simp add: find_class_def py_in_char)

text \<open>The path \<^verbatim>\<open>5\<close> resolves to the integer 5, which is no type; the dotted path
  \<^verbatim>\<open>num.one\<close> is looked up in the module \<^verbatim>\<open>num\<close>.\<close>

theorem find_class_branches_witness:
  "find_class numpy_env ''5'' = Inr (VInt 5) \<and> find_class numpy_env ''num.one'' = Inr (VInt 1)"
  using find_class_branches[of "''5''" numpy_env] find_class_branches[of "''num.one''" numpy_env]
  by (simp add: numpy_env_def find_object_def import_module_def module_getattr_def)



section \<open>Properties of the composite expansion\<close>

lemma extends_refl: "extends h p p"
  by (simp add: extends_def)

lemma extends_snoc:
  "n \<notin> fst ` set p \<Longrightarrow> ob < length h \<Longrightarrow> obj_name (h ! ob) = Some n \<Longrightarrow>
     extends h p (p @ [(n, ob)])"
  by (simp add: extends_def)

lemma extends_trans:
  assumes "extends h p p'" and "extends h p' p''"
  shows "extends h p p''"
proof -
  from assms(1) obtain a where a: "p' = p @ a" "distinct (map fst a)"
    "\<forall>x \<in> set a. snd x < length h \<and> obj_name (h ! snd x) = Some (fst x) \<and> fst x \<notin> fst ` set p"
    unfolding extends_def by blast
  from assms(2) obtain b where b: "p'' = p' @ b" "distinct (map fst b)"
    "\<forall>x \<in> set b. snd x < length h \<and> obj_name (h ! snd x) = Some (fst x) \<and> fst x \<notin> fst ` set p'"
    unfolding extends_def by blast
  have 1: "p'' = p @ (a @ b)" using a(1) b(1) by simp
  have d: "fst ` set a \<inter> fst ` set b = {}"
  proof (rule ccontr)
    assume "fst ` set a \<inter> fst ` set b \<noteq> {}"
    then obtain n where n: "n \<in> fst ` set a" "n \<in> fst ` set b" by blast
    from n(2) obtain y where y: "y \<in> set b" "fst y = n" by auto
    from b(3) y have "n \<notin> fst ` set p'" by blast
    moreover from n(1) have "n \<in> fst ` set p'" by (simp add: a(1) image_Un)
    ultimately show False by blast
  qed
  have 2: "distinct (map fst (a @ b))" using a(2) b(2) d by simp
  have 3: "\<forall>x \<in> set (a @ b). snd x < length h \<and> obj_name (h ! snd x) = Some (fst x) \<and>
             fst x \<notin> fst ` set p"
  proof
    fix x assume "x \<in> set (a @ b)"
    then consider "x \<in> set a" | "x \<in> set b" by auto
    then show "snd x < length h \<and> obj_name (h ! snd x) = Some (fst x) \<and> fst x \<notin> fst ` set p"
    proof cases
      case 1
      with a(3) show ?thesis by blast
    next
      case 2
      with b(3) have "snd x < length h \<and> obj_name (h ! snd x) = Some (fst x) \<and>
                      fst x \<notin> fst ` set p'" by blast
      moreover have "fst ` set p \<subseteq> fst ` set p'" using a(1) by auto
      ultimately show ?thesis by blast
    qed
  qed
  from 1 2 3 show ?thesis unfolding extends_def by blast
qed

lemma accumulate_extends:
  "accumulate h obj st = Inr st' \<Longrightarrow> extends h (fst st) (fst st')"
  "accumulate_comps h obj cs st = Inr st' \<Longrightarrow> extends h (fst st) (fst st')"
proof (induction h obj st and h obj cs st arbitrary: st' and st'
       rule: accumulate_accumulate_comps.induct)
  case (1 h obj scope_objs cache)
  show ?case
  proof (cases "set_contains h cache obj")
    case (Inl err)
    with 1(2) show ?thesis by simp
  next
    case (Inr b)
    show ?thesis
    proof (cases b)
      case True
      with 1(2) Inr show ?thesis by (auto simp: extends_refl)
    next
      case False
      let ?cs = "case component_names (h ! obj) of None \<Rightarrow> [] | Some ns \<Rightarrow> ns"
      from 1(2) Inr False obtain p1 c1 n where
        r: "accumulate_comps h obj ?cs (scope_objs, obj # cache) = Inr (p1, c1)"
        and n: "obj_name (h ! obj) = Some n"
        and s: "st' = (if n \<notin> fst ` set p1 then (p1 @ [(n, obj)], c1) else (p1, c1))"
        by (auto split: sum.splits option.splits if_splits)
      from 1(1)[of b "(p1, c1)"] Inr False r have e: "extends h scope_objs p1" by simp
      from Inr False have v: "obj < length h" by (auto dest: set_contains_False)
      show ?thesis
      proof (cases "n \<notin> fst ` set p1")
        case True
        with s e extends_snoc[OF True v n] show ?thesis by (auto intro: extends_trans)
      next
        case False
        with s e show ?thesis by simp
      qed
    qed
  qed
next
  case (2 h obj st)
  then show ?case by (simp add: extends_refl)
next
  case (3 h obj comp_name rest st)
  from 3(3) obtain sub_obj st1 where
    g: "getattr h obj comp_name = Inr sub_obj" and a: "accumulate h sub_obj st = Inr st1"
    and r: "accumulate_comps h obj rest st1 = Inr st'"
    by (auto split: sum.splits)
  from 3(1)[OF g a] 3(2)[OF g a r] show ?case by (rule extends_trans)
qed

lemma expand_loop_extends:
  "expand_loop h copy st = Inr st' \<Longrightarrow> extends h (fst st) (fst st')"
proof (induction copy arbitrary: st)
  case Nil
  then show ?case by (simp add: extends_refl)
next
  case (Cons x copy)
  obtain name obj where x: "x = (name, obj)" by (cases x)
  show ?case
  proof (cases "isinstance h obj (VType Device)")
    case (Inl err)
    with Cons.prems x show ?thesis by simp
  next
    case (Inr b)
    show ?thesis
    proof (cases b)
      case True
      with Cons.prems x Inr obtain st1 where a: "accumulate h obj st = Inr st1"
        and r: "expand_loop h copy st1 = Inr st'"
        by (auto split: sum.splits)
      from accumulate_extends(1)[OF a] Cons.IH[OF r] show ?thesis by (rule extends_trans)
    next
      case False
      with Cons.prems x Inr have "expand_loop h copy st = Inr st'" by simp
      then show ?thesis by (rule Cons.IH)
    qed
  qed
qed

lemma expand_extends: "expand h p = Inr p' \<Longrightarrow> extends h p p'"
  using expand_loop_extends[of h p "(p, [])"]
  by (auto simp: expand_def split: sum.splits)

text \<open>
  C2. Composite expansion only adds bindings: the expanded dictionary is the given one
  followed by new bindings, each under a name the given one did not bind, so every
  name bound before the expansion keeps its binding and none is removed.
\<close>

theorem expand_only_adds:
  assumes "expand h scope_objs = Inr scope_objs'"
  shows "(\<exists>added. scope_objs' = scope_objs @ added \<and>
            (\<forall>x \<in> set added. fst x \<notin> fst ` set scope_objs)) \<and>
         (\<forall>n \<in> fst ` set scope_objs. map_of scope_objs' n = map_of scope_objs n)"
proof -
  from expand_extends[OF assms] obtain added where
    a: "scope_objs' = scope_objs @ added" and
    b: "\<forall>x \<in> set added. fst x \<notin> fst ` set scope_objs"
    unfolding extends_def by blast
  have "\<forall>n \<in> fst ` set scope_objs. map_of scope_objs' n = map_of scope_objs n"
  proof
    fix n assume "n \<in> fst ` set scope_objs"
    then have "n \<in> dom (map_of scope_objs)" by (simp add: dom_map_of_conv_image_fst)
    then show "map_of scope_objs' n = map_of scope_objs n"
      unfolding a map_of_append by (auto simp: map_add_def split: option.splits)
  qed
  with a b show ?thesis by blast
qed

lemma expand_cycle_a: "expand cycle_heap [(''a'', 0)] = Inr [(''a'', 0), (''b'', 1)]"
  by (simp add: expand_def cycle_heap_def plain_obj_def isinstance_def deref_def
        set_contains_def getattr_def Device_def FunctionType_def py_equal_def)

lemma expand_cycle_b_bound:
  "expand cycle_heap [(''a'', 0), (''b'', 2)] = Inr [(''a'', 0), (''b'', 2)]"
  by (simp add: expand_def cycle_heap_def plain_obj_def isinstance_def deref_def
        set_contains_def getattr_def Device_def FunctionType_def py_equal_def)

text \<open>The component of the device \<^verbatim>\<open>a\<close> is named \<^verbatim>\<open>b\<close>; the name \<^verbatim>\<open>b\<close> is bound to
  a function already, and stays bound to it.\<close>

theorem expand_only_adds_witness:
  "expand cycle_heap [(''a'', 0), (''b'', 2)] = Inr [(''a'', 0), (''b'', 2)] \<and>
   map_of [(''a'', 0), (''b'', 2::nat)] ''b'' = Some 2"
  using expand_only_adds[OF expand_cycle_b_bound] expand_cycle_b_bound by simp

section \<open>Properties of the type-filtered builder\<close>





text \<open>The result of the builder does not depend on the log it is handed.\<close>

lemma include_loop_log:
  "fst (include_loop h cls p (ns, log)) = fst (include_loop h cls p (ns, log'))"
proof (induction p arbitrary: ns log log')
  case Nil
  show ?case by simp
next
  case (Cons x p)
  obtain name obj where x: "x = (name, obj)" by (cases x)
  show ?case unfolding x
    by (simp split: sum.splits) (use Cons.IH in blast)
qed

lemma class_namespace_log:
  "fst (class_namespace e h cls scope_objs log0) = fst (class_namespace e h cls scope_objs log1)"
  unfolding class_namespace_def Let_def
  by (auto split: pyval.splits sum.splits intro: include_loop_log)

text \<open>
  C8. Two runs of \<^verbatim>\<open>class_namespace\<close> with the same type over the same scope, the
  second started in the state the first has left (the log has grown, the objects are
  untouched), return the same namespace, binding for binding in the same order, or
  raise the same exception.
\<close>

theorem class_namespace_twice:
  assumes "class_namespace e h cls scope_objs log0 = (ns1, log1)"
      and "class_namespace e h cls scope_objs log1 = (ns2, log2)"
  shows "ns1 = ns2"
  using assms class_namespace_log[of e h cls scope_objs log0 log1]
  by simp

text \<open>Both runs over the two devices give \<^verbatim>\<open>a\<close>, then \<^verbatim>\<open>b\<close>.\<close>

theorem class_namespace_twice_witness:
  "fst (class_namespace numpy_env cycle_heap (VType Device) [(''a'', 0)] []) =
     Inr [(''a'', Obj 0), (''b'', Obj 1)] \<and>
   fst (class_namespace numpy_env cycle_heap (VType Device) [(''a'', 0)]
          (snd (class_namespace numpy_env cycle_heap (VType Device) [(''a'', 0)] []))) =
     Inr [(''a'', Obj 0), (''b'', Obj 1)]"
proof -
  have r: "fst (class_namespace numpy_env cycle_heap (VType Device) [(''a'', 0)] []) =
             Inr [(''a'', Obj 0), (''b'', Obj 1)]"
    by (simp add: class_namespace_def expand_def cycle_heap_def plain_obj_def isinstance_def
          deref_def set_contains_def getattr_def Device_def FunctionType_def py_equal_def
          IterableNamespace_def setattr_def)
  from class_namespace_twice[OF prod.collapse[symmetric] prod.collapse[symmetric],
         of numpy_env cycle_heap "VType Device" "[(''a'', 0)]" "[]"]
  have "fst (class_namespace numpy_env cycle_heap (VType Device) [(''a'', 0)] []) =
        fst (class_namespace numpy_env cycle_heap (VType Device) [(''a'', 0)]
          (snd (class_namespace numpy_env cycle_heap (VType Device) [(''a'', 0)] [])))" .
  with r show ?thesis by simp
qed

lemma dict_set_new: "k \<notin> fst ` set d \<Longrightarrow> dict_set d k v = d @ [(k, v)]"
  by (induction d) auto

lemma expand_loop_valid:
  "expand_loop h copy st = Inr st' \<Longrightarrow> \<forall>x \<in> set copy. snd x < length h"
proof (induction copy arbitrary: st)
  case Nil
  show ?case by simp
next
  case (Cons x copy)
  obtain name obj where x: "x = (name, obj)" by (cases x)
  from Cons.prems x obtain b where b: "isinstance h obj (VType Device) = Inr b"
    by (auto split: sum.splits)
  then have v: "obj < length h"
    by (auto simp: isinstance_def deref_def split: if_splits)
  from Cons.prems x b obtain st1 where "expand_loop h copy st1 = Inr st'"
    by (cases b) (auto split: sum.splits)
  then have "\<forall>x \<in> set copy. snd x < length h" by (rule Cons.IH)
  with v x show ?case by simp
qed

lemma expand_valid:
  assumes "expand h p = Inr p'"
  shows "\<forall>x \<in> set p'. snd x < length h"
proof -
  from assms obtain c where l: "expand_loop h p (p, []) = Inr (p', c)"
    by (auto simp: expand_def split: sum.splits)
  from expand_loop_valid[OF l] have 1: "\<forall>x \<in> set p. snd x < length h" .
  from expand_extends[OF assms] obtain added where
    "p' = p @ added" "\<forall>x \<in> set added. snd x < length h"
    unfolding extends_def by blast
  with 1 show ?thesis by auto
qed

lemma expand_distinct:
  assumes "expand h p = Inr p'" and "distinct (map fst p)"
  shows "distinct (map fst p')"
proof -
  from expand_extends[OF assms(1)] obtain added where
    a: "p' = p @ added" "distinct (map fst added)" "\<forall>x \<in> set added. fst x \<notin> fst ` set p"
    unfolding extends_def by blast
  from a(3) have "fst ` set p \<inter> fst ` set added = {}" by force
  with a(1,2) assms(2) show ?thesis by simp
qed

lemma include_loop_function:
  assumes "\<forall>x \<in> set p. snd x < length h"
      and "distinct (map fst ns @ map fst p)"
  shows "fst (include_loop h (VStr ''function'') p (ns, log)) =
           Inr (ns @ bind_all (filter (\<lambda>x. FunctionType \<in> set (py_types (h ! snd x))) p))"
  using assms
proof (induction p arbitrary: ns log)
  case Nil
  show ?case by (simp add: bind_all_def)
next
  case (Cons x p)
  obtain name obj where x: "x = (name, obj)" by (cases x)
  from Cons.prems(1) x have v: "obj < length h" by simp
  then have f: "isfunction h obj = Inr (FunctionType \<in> set (py_types (h ! obj)))"
    by (simp add: isfunction_def isinstance_def deref_def)
  show ?case
  proof (cases "FunctionType \<in> set (py_types (h ! obj))")
    case True
    from Cons.prems(2) x have new: "name \<notin> fst ` set ns" by auto
    have d: "distinct (map fst (ns @ [(name, Obj obj)]) @ map fst p)"
      using Cons.prems(2) x by auto
    have "fst (include_loop h (VStr ''function'') p (ns @ [(name, Obj obj)], log @ [(DEBUG, ''Include %s in cls=%s namespace'')])) =
      Inr ((ns @ [(name, Obj obj)]) @ bind_all (filter (\<lambda>x. FunctionType \<in> set (py_types (h ! snd x))) p))"
      using Cons.prems(1) d by (intro Cons.IH) auto
    with True f x new show ?thesis
      by (simp add: setattr_def dict_set_new bind_all_def)
  next
    case False
    have d: "distinct (map fst ns @ map fst p)" using Cons.prems(2) by auto
    have "fst (include_loop h (VStr ''function'') p (ns, log)) =
      Inr (ns @ bind_all (filter (\<lambda>x. FunctionType \<in> set (py_types (h ! snd x))) p))"
      using Cons.prems(1) d by (intro Cons.IH) auto
    with False f x show ?thesis by simp
  qed
qed

text \<open>
  C5. With the marker \<^verbatim>\<open>function\<close> the namespace holds exactly the bindings of the
  expanded scope whose object is a plain function, in the order of the scope; an
  object of any other type is left out, whether or not its type defines
  \<^verbatim>\<open>__call__\<close>, which the builder never reads. When the expansion raises, so does the
  builder.
\<close>

theorem function_namespace:
  assumes "distinct (map fst scope_objs)"
  shows "fst (class_namespace e h (VStr ''function'') scope_objs log0) =
           (case expand h scope_objs of
              Inl err \<Rightarrow> Inl err
            | Inr scope_objs' \<Rightarrow>
                Inr (bind_all (filter (\<lambda>x. FunctionType \<in> set (py_types (h ! snd x)))
                                 scope_objs')))"
proof (cases "expand h scope_objs")
  case (Inl err)
  then show ?thesis by (simp add: class_namespace_def)
next
  case (Inr scope_objs')
  from expand_valid[OF Inr] have v: "\<forall>x \<in> set scope_objs'. snd x < length h" .
  from expand_distinct[OF Inr assms] have d: "distinct (map fst [] @ map fst scope_objs')" by simp
  from include_loop_function[OF v d] Inr show ?thesis
    by (simp add: class_namespace_def IterableNamespace_def)
qed

lemma expand_cycle_fk:
  "expand cycle_heap [(''a'', 0), (''f'', 2), (''k'', 3)] =
     Inr [(''a'', 0), (''f'', 2), (''k'', 3), (''b'', 1)]"
  by (simp add: expand_def cycle_heap_def plain_obj_def isinstance_def deref_def
        set_contains_def getattr_def Device_def FunctionType_def py_equal_def)

text \<open>The function \<^verbatim>\<open>f\<close> is included; the callable instance \<^verbatim>\<open>k\<close> and the two devices
  are not.\<close>

theorem function_namespace_witness:
  "has_call (cycle_heap ! 3) \<and>
   fst (class_namespace numpy_env cycle_heap (VStr ''function'')
          [(''a'', 0), (''f'', 2), (''k'', 3)] []) = Inr [(''f'', Obj 2)]"
proof -
  have d: "distinct (map fst [(''a'', 0::nat), (''f'', 2), (''k'', 3)])" by simp
  have "fst (class_namespace numpy_env cycle_heap (VStr ''function'')
          [(''a'', 0), (''f'', 2), (''k'', 3)] []) =
        Inr (bind_all (filter (\<lambda>x. FunctionType \<in> set (py_types (cycle_heap ! snd x)))
                         [(''a'', 0), (''f'', 2), (''k'', 3), (''b'', 1)]))"
    using function_namespace[OF d, of numpy_env cycle_heap "[]"]
    by (simp only: expand_cycle_fk sum.case)
  moreover have "bind_all (filter (\<lambda>x. FunctionType \<in> set (py_types (cycle_heap ! snd x)))
                         [(''a'', 0), (''f'', 2), (''k'', 3), (''b'', 1)]) = [(''f'', Obj 2)]"
    by (simp add: bind_all_def cycle_heap_def plain_obj_def FunctionType_def Device_def)
  moreover have "has_call (cycle_heap ! 3)"
    by (simp add: cycle_heap_def plain_obj_def)
  ultimately show ?thesis by simp
qed

section \<open>Properties of the metadata builder\<close>

lemma map_of_dict_set: "map_of (dict_set d k v) k = Some v"
  by (induction d) auto

lemma setattr_get:
  "obj_setattr st u a x = Inr st' \<Longrightarrow> obj_getattr st' u a = Inr x"
  by (auto simp: obj_setattr_def obj_getattr_def map_of_dict_set
           split: mval.splits if_splits option.splits)

lemma walk_name:
  "walk st u keys name = (Inr (u', n'), st1) \<Longrightarrow>
     n' = foldl strip_prefix name (consumed keys)"
proof (induction st u keys name rule: walk.induct)
  case (3 st upper_space key keys name)
  show ?case
  proof (cases "obj_hasattr st upper_space key")
    case (Inl err)
    with 3(3) show ?thesis by simp
  next
    case (Inr b)
    show ?thesis
    proof (cases b)
      case True
      with Inr 3(3) obtain sub where
        g: "obj_getattr st upper_space key = Inr sub" and
        w: "walk st sub keys (strip_prefix name key) = (Inr (u', n'), st1)"
        by (auto split: sum.splits)
      from 3(1)[OF Inr _ g w] True show ?thesis by simp
    next
      case False
      with Inr 3(3) obtain st2 sub where
        s: "obj_setattr (snd (new_namespace st)) upper_space key (fst (new_namespace st)) = Inr st2" and
        g: "obj_getattr st2 upper_space key = Inr sub" and
        w: "walk st2 sub keys (strip_prefix name key) = (Inr (u', n'), st1)"
        by (auto split: sum.splits)
      from 3(2)[OF Inr _ s g w] False show ?thesis by simp
    qed
  qed
qed simp_all

lemma metadata_loop_append:
  "metadata_loop md (xs @ ys) root (st, log) =
     (case metadata_loop md xs root (st, log) of
        (Inl err, s) \<Rightarrow> (Inl err, s)
      | (Inr u, s) \<Rightarrow> metadata_loop md ys root s)"
proof (induction xs arbitrary: st log)
  case Nil
  show ?case by simp
next
  case (Cons x xs)
  obtain name obj where x: "x = (name, obj)" by (cases x)
  show ?case unfolding x
    by (simp add: Cons.IH split: sum.splits option.splits list.splits mval.splits prod.splits)
qed

text \<open>
  C4, as amended. The stripping is applied in both modes: where the builder returns,
  every object that it has placed, with its keys read from its metadata record or split
  from its name, was bound under its bound name with the prefix of each consumed key
  stripped in turn, on the namespace or object that the walk along its keys reached.
  \<open>st0\<close> is the store as the objects before it have left it, \<open>st2\<close> the store once it
  is bound.
\<close>

theorem leaf_name_stripped:
  assumes "metadata_namespace md (front @ (name, obj) # back) (st, log0) = (Inr root, st', log')"
      and "metadata_namespace md front (st, log0) = (res0, st0, log0')"
      and "raw_keys st0 obj md name = Inr (Some (k # ks))" and "k \<noteq> MNone"
      and "path = consumed (map lower_key (k # ks))"
  shows "\<exists>upper_space st1 st2.
           walk st0 root (map lower_key (k # ks)) name =
             (Inr (upper_space, foldl strip_prefix name path), st1) \<and>
           obj_setattr st1 upper_space (foldl strip_prefix name path) obj = Inr st2 \<and>
           obj_getattr st2 upper_space (foldl strip_prefix name path) = Inr obj \<and>
           fst (snd (metadata_namespace md (front @ [(name, obj)]) (st, log0))) = st2"
proof -
  let ?root = "fst (new_namespace st)"
  let ?s = "(snd (new_namespace st),
             log0 @ [(DEBUG, ''Create metadata_namespace md=%s, scope=%s'')])"
  let ?keys = "map lower_key (k # ks)"
  have root: "root = ?root"
    using assms(1) by (auto simp: metadata_namespace_def split: prod.splits sum.splits)
  obtain r1 s1 l1 where f: "metadata_loop md front ?root ?s = (r1, s1, l1)"
    by (cases "metadata_loop md front ?root ?s") auto
  from assms(1) have full: "fst (metadata_loop md (front @ (name, obj) # back) ?root ?s) = Inr ()"
    by (auto simp: metadata_namespace_def split: prod.splits sum.splits)
  have r1: "r1 = Inr ()"
    using full f by (cases r1) (auto simp: metadata_loop_append)
  from assms(2) f have s1: "s1 = st0"
    by (auto simp: metadata_namespace_def split: prod.splits sum.splits)
  from full f r1 s1
  have rest: "fst (metadata_loop md ((name, obj) # back) ?root (st0, l1)) = Inr ()"
    by (simp add: metadata_loop_append)
  obtain pr st2 where p: "place st0 ?root ?keys name obj = (pr, st2)"
    by (cases "place st0 ?root ?keys name obj") auto
  from rest assms(3,4) p have pr: "pr = Inr ()"
    by (cases k; cases pr) (auto split: sum.splits)
  from p pr obtain upper_space name' st1 where
    w: "walk st0 ?root ?keys name = (Inr (upper_space, name'), st1)" and
    sa: "obj_setattr st1 upper_space name' obj = Inr st2"
    by (auto simp: place_def split: prod.splits sum.splits)
  from walk_name[OF w] assms(5) have n: "name' = foldl strip_prefix name path" by simp
  have last: "fst (snd (metadata_namespace md (front @ [(name, obj)]) (st, log0))) = st2"
    using f r1 s1 assms(3,4) p pr
    by (cases k) (auto simp: metadata_namespace_def metadata_loop_append split: prod.splits sum.splits)
  from w sa setattr_get[OF sa] n last root show ?thesis by blast
qed

lemma split_tst: "py_in ''_'' ''tst_det_1''"
   "py_split CHR ''_'' ''tst_det_1'' = [''tst'', ''det'', ''1'']"
  by code_simp+

lemma lower_tst: "lower ''tst'' = ''tst''" "lower ''det'' = ''det''"
  by code_simp+

lemma strip_tst: "strip_prefix ''tst_det_1'' ''tst'' = ''det_1''"
   "strip_prefix ''det_1'' ''det'' = ''1''"
  by code_simp+

text \<open>
  C6. An object without metadata record that is bound as \<^verbatim>\<open>tst_det_1\<close>, built with two
  fields, has the key path \<^verbatim>\<open>tst\<close>, \<^verbatim>\<open>det\<close> and is bound there under the leaf name
  \<^verbatim>\<open>1\<close>: the root holds a namespace as \<^verbatim>\<open>tst\<close>, that one a namespace as \<^verbatim>\<open>det\<close>,
  and that one the object as \<^verbatim>\<open>1\<close>.
\<close>

theorem name_split_tst_det_1:
  assumes "obj_hasattr st obj ''md'' = Inr False" and "length md = 2"
  shows "raw_keys st obj md ''tst_det_1'' = Inr (Some [MStr ''tst'', MStr ''det'']) \<and>
         metadata_namespace md [(''tst_det_1'', obj)] (st, log0) =
           (Inr (MRef (length st)),
            st @ [\<lparr>m_attrs = [(''tst'', MRef (length st + 1))], m_setattr = None\<rparr>,
                  \<lparr>m_attrs = [(''det'', MRef (length st + 2))], m_setattr = None\<rparr>,
                  \<lparr>m_attrs = [(''1'', obj)], m_setattr = None\<rparr>],
            log0 @ [(DEBUG, ''Create metadata_namespace md=%s, scope=%s''),
                    (DEBUG, ''Add %s to metadata namespace'')])"
proof -
  let ?e = "\<lparr>m_attrs = [], m_setattr = None\<rparr>"
  have h: "obj_hasattr (st @ [?e]) obj ''md'' = Inr False"
    using assms(1) by (auto simp: obj_hasattr_def nth_append split: mval.splits if_splits)
  have r: "raw_keys (st @ [?e]) obj md ''tst_det_1'' = Inr (Some [MStr ''tst'', MStr ''det''])"
    using h assms(2) by (simp add: raw_keys_def split_tst)
  have r0: "raw_keys st obj md ''tst_det_1'' = Inr (Some [MStr ''tst'', MStr ''det''])"
    using assms by (simp add: raw_keys_def split_tst)
  have w: "walk (st @ [?e]) (MRef (length st)) [MStr ''tst'', MStr ''det''] ''tst_det_1'' =
             (Inr (MRef (length st + 2), ''1''),
              st @ [\<lparr>m_attrs = [(''tst'', MRef (length st + 1))], m_setattr = None\<rparr>,
                    \<lparr>m_attrs = [(''det'', MRef (length st + 2))], m_setattr = None\<rparr>,
                    ?e])"
    by (simp add: obj_hasattr_def obj_getattr_def obj_setattr_def new_namespace_def
          nth_append list_update_append strip_tst)
  have p: "place (st @ [?e]) (MRef (length st)) [MStr ''tst'', MStr ''det''] ''tst_det_1'' obj =
             (Inr (),
              st @ [\<lparr>m_attrs = [(''tst'', MRef (length st + 1))], m_setattr = None\<rparr>,
                    \<lparr>m_attrs = [(''det'', MRef (length st + 2))], m_setattr = None\<rparr>,
                    \<lparr>m_attrs = [(''1'', obj)], m_setattr = None\<rparr>])"
    by (simp add: place_def w obj_setattr_def nth_append list_update_append del: walk.simps)
  have "metadata_namespace md [(''tst_det_1'', obj)] (st, log0) =
           (Inr (MRef (length st)),
            st @ [\<lparr>m_attrs = [(''tst'', MRef (length st + 1))], m_setattr = None\<rparr>,
                  \<lparr>m_attrs = [(''det'', MRef (length st + 2))], m_setattr = None\<rparr>,
                  \<lparr>m_attrs = [(''1'', obj)], m_setattr = None\<rparr>],
            log0 @ [(DEBUG, ''Create metadata_namespace md=%s, scope=%s''),
                    (DEBUG, ''Add %s to metadata namespace'')])"
    by (simp add: metadata_namespace_def new_namespace_def r lower_key_def lower_tst p)
  with r0 show ?thesis by simp
qed

theorem name_split_tst_det_1_witness:
  "raw_keys md_store (MRef 2) [''beamline'', ''stand''] ''tst_det_1'' =
     Inr (Some [MStr ''tst'', MStr ''det'']) \<and>
   metadata_namespace [''beamline'', ''stand''] [(''tst_det_1'', MRef 2)] (md_store, []) =
     (Inr (MRef 4),
      md_store @ [\<lparr>m_attrs = [(''tst'', MRef 5)], m_setattr = None\<rparr>,
                  \<lparr>m_attrs = [(''det'', MRef 6)], m_setattr = None\<rparr>,
                  \<lparr>m_attrs = [(''1'', MRef 2)], m_setattr = None\<rparr>],
      [(DEBUG, ''Create metadata_namespace md=%s, scope=%s''),
       (DEBUG, ''Add %s to metadata namespace'')])"
proof -
  have h: "obj_hasattr md_store (MRef 2) ''md'' = Inr False"
    by (simp add: obj_hasattr_def md_store_def)
  have l: "length [''beamline'', ''stand''] = 2" by simp
  have n: "length md_store = 4" by (simp add: md_store_def)
  from name_split_tst_det_1[OF h l, of "[]"] show ?thesis by (simp add: n)
qed

lemma md_build_mfx:
  "metadata_namespace [''beamline''] [(''mfx_det'', MRef 1)] (md_store, []) =
     (Inr (MRef 4),
      md_store @ [\<lparr>m_attrs = [(''mfx'', MRef 5)], m_setattr = None\<rparr>,
                  \<lparr>m_attrs = [(''det'', MRef 1)], m_setattr = None\<rparr>],
      [(DEBUG, ''Create metadata_namespace md=%s, scope=%s''),
       (DEBUG, ''Add %s to metadata namespace'')])"
  by code_simp

text \<open>
  C4, as stated, fails: the object has a metadata record with \<^verbatim>\<open>beamline = 'MFX'\<close> and
  is bound as \<^verbatim>\<open>mfx_det\<close>; it is classified by the record and bound under \<^verbatim>\<open>det\<close>,
  not under \<^verbatim>\<open>mfx_det\<close>.
\<close>

theorem leaf_name_unstripped_counterexample:
  "obj_getattr md_store (MRef 1) ''md'' = Inr (MRef 0) \<and>
   obj_getattr md_store (MRef 0) ''beamline'' = Inr (MStr ''MFX'') \<and>
   metadata_namespace [''beamline''] [(''mfx_det'', MRef 1)] (md_store, []) =
     (Inr (MRef 4),
      md_store @ [\<lparr>m_attrs = [(''mfx'', MRef 5)], m_setattr = None\<rparr>,
                  \<lparr>m_attrs = [(''det'', MRef 1)], m_setattr = None\<rparr>],
      [(DEBUG, ''Create metadata_namespace md=%s, scope=%s''),
       (DEBUG, ''Add %s to metadata namespace'')]) \<and>
   ''det'' \<noteq> ''mfx_det''"
proof (intro conjI)
  show "obj_getattr md_store (MRef 1) ''md'' = Inr (MRef 0)"
    by (simp add: obj_getattr_def md_store_def)
  show "obj_getattr md_store (MRef 0) ''beamline'' = Inr (MStr ''MFX'')"
    by (simp add: obj_getattr_def md_store_def)
  show "metadata_namespace [''beamline''] [(''mfx_det'', MRef 1)] (md_store, []) =
     (Inr (MRef 4),
      md_store @ [\<lparr>m_attrs = [(''mfx'', MRef 5)], m_setattr = None\<rparr>,
                  \<lparr>m_attrs = [(''det'', MRef 1)], m_setattr = None\<rparr>],
      [(DEBUG, ''Create metadata_namespace md=%s, scope=%s''),
       (DEBUG, ''Add %s to metadata namespace'')])"
    by (rule md_build_mfx)
  show "''det'' \<noteq> ''mfx_det''" by simp
qed

text \<open>
  A build in which a key of the path is bound to an object already: \<^verbatim>\<open>mfx_det\<close> is
  placed by its record as \<^verbatim>\<open>mfx.det\<close>, the walk for \<^verbatim>\<open>mfx_det_cam\<close> then runs
  through that object, which receives the attribute \<^verbatim>\<open>cam\<close>, and the build goes on
  with \<^verbatim>\<open>tst_det_1\<close>.
\<close>

lemma collide_full:
  "metadata_namespace [''beamline'', ''stand'']
     ([(''mfx_det'', MRef 1)] @ (''mfx_det_cam'', MRef 2) # [(''tst_det_1'', MRef 3)])
     (md_store, []) =
   (Inr (MRef 4),
    [\<lparr>m_attrs = [(''beamline'', MStr ''MFX''), (''stand'', MNone)], m_setattr = None\<rparr>,
     \<lparr>m_attrs = [(''md'', MRef 0), (''cam'', MRef 2)], m_setattr = None\<rparr>,
     \<lparr>m_attrs = [], m_setattr = None\<rparr>,
     \<lparr>m_attrs = [], m_setattr = None\<rparr>,
     \<lparr>m_attrs = [(''mfx'', MRef 5), (''tst'', MRef 6)], m_setattr = None\<rparr>,
     \<lparr>m_attrs = [(''det'', MRef 1)], m_setattr = None\<rparr>,
     \<lparr>m_attrs = [(''det'', MRef 7)], m_setattr = None\<rparr>,
     \<lparr>m_attrs = [(''1'', MRef 3)], m_setattr = None\<rparr>],
    [(DEBUG, ''Create metadata_namespace md=%s, scope=%s''),
     (DEBUG, ''Add %s to metadata namespace''),
     (DEBUG, ''Add %s to metadata namespace''),
     (DEBUG, ''Add %s to metadata namespace'')])"
  by code_simp

lemma collide_front:
  "metadata_namespace [''beamline'', ''stand''] [(''mfx_det'', MRef 1)] (md_store, []) =
   (Inr (MRef 4),
    [\<lparr>m_attrs = [(''beamline'', MStr ''MFX''), (''stand'', MNone)], m_setattr = None\<rparr>,
     \<lparr>m_attrs = [(''md'', MRef 0)], m_setattr = None\<rparr>,
     \<lparr>m_attrs = [], m_setattr = None\<rparr>,
     \<lparr>m_attrs = [], m_setattr = None\<rparr>,
     \<lparr>m_attrs = [(''mfx'', MRef 5)], m_setattr = None\<rparr>,
     \<lparr>m_attrs = [(''det'', MRef 1)], m_setattr = None\<rparr>],
    [(DEBUG, ''Create metadata_namespace md=%s, scope=%s''),
     (DEBUG, ''Add %s to metadata namespace'')])"
  by code_simp

lemma collide_keys:
  "raw_keys
    [\<lparr>m_attrs = [(''beamline'', MStr ''MFX''), (''stand'', MNone)], m_setattr = None\<rparr>,
     \<lparr>m_attrs = [(''md'', MRef 0)], m_setattr = None\<rparr>,
     \<lparr>m_attrs = [], m_setattr = None\<rparr>,
     \<lparr>m_attrs = [], m_setattr = None\<rparr>,
     \<lparr>m_attrs = [(''mfx'', MRef 5)], m_setattr = None\<rparr>,
     \<lparr>m_attrs = [(''det'', MRef 1)], m_setattr = None\<rparr>]
    (MRef 2) [''beamline'', ''stand''] ''mfx_det_cam'' = Inr (Some (MStr ''mfx'' # [MStr ''det'']))"
  by code_simp

lemma collide_path:
  "[''mfx'', ''det''] = consumed (map lower_key (MStr ''mfx'' # [MStr ''det'']))"
  "foldl strip_prefix ''mfx_det_cam'' [''mfx'', ''det''] = ''cam''"
  by code_simp+

lemma collide_walk:
  "walk
    [\<lparr>m_attrs = [(''beamline'', MStr ''MFX''), (''stand'', MNone)], m_setattr = None\<rparr>,
     \<lparr>m_attrs = [(''md'', MRef 0)], m_setattr = None\<rparr>,
     \<lparr>m_attrs = [], m_setattr = None\<rparr>,
     \<lparr>m_attrs = [], m_setattr = None\<rparr>,
     \<lparr>m_attrs = [(''mfx'', MRef 5)], m_setattr = None\<rparr>,
     \<lparr>m_attrs = [(''det'', MRef 1)], m_setattr = None\<rparr>]
    (MRef 4) (map lower_key (MStr ''mfx'' # [MStr ''det''])) ''mfx_det_cam'' =
   (Inr (MRef 1, ''cam''),
    [\<lparr>m_attrs = [(''beamline'', MStr ''MFX''), (''stand'', MNone)], m_setattr = None\<rparr>,
     \<lparr>m_attrs = [(''md'', MRef 0)], m_setattr = None\<rparr>,
     \<lparr>m_attrs = [], m_setattr = None\<rparr>,
     \<lparr>m_attrs = [], m_setattr = None\<rparr>,
     \<lparr>m_attrs = [(''mfx'', MRef 5)], m_setattr = None\<rparr>,
     \<lparr>m_attrs = [(''det'', MRef 1)], m_setattr = None\<rparr>])"
  by code_simp

lemma collide_last:
  "fst (snd (metadata_namespace [''beamline'', ''stand'']
     ([(''mfx_det'', MRef 1)] @ [(''mfx_det_cam'', MRef 2)]) (md_store, []))) =
    [\<lparr>m_attrs = [(''beamline'', MStr ''MFX''), (''stand'', MNone)], m_setattr = None\<rparr>,
     \<lparr>m_attrs = [(''md'', MRef 0), (''cam'', MRef 2)], m_setattr = None\<rparr>,
     \<lparr>m_attrs = [], m_setattr = None\<rparr>,
     \<lparr>m_attrs = [], m_setattr = None\<rparr>,
     \<lparr>m_attrs = [(''mfx'', MRef 5)], m_setattr = None\<rparr>,
     \<lparr>m_attrs = [(''det'', MRef 1)], m_setattr = None\<rparr>]"
  by code_simp

theorem leaf_name_stripped_witness:
  "obj_getattr
    [\<lparr>m_attrs = [(''beamline'', MStr ''MFX''), (''stand'', MNone)], m_setattr = None\<rparr>,
     \<lparr>m_attrs = [(''md'', MRef 0), (''cam'', MRef 2)], m_setattr = None\<rparr>,
     \<lparr>m_attrs = [], m_setattr = None\<rparr>,
     \<lparr>m_attrs = [], m_setattr = None\<rparr>,
     \<lparr>m_attrs = [(''mfx'', MRef 5)], m_setattr = None\<rparr>,
     \<lparr>m_attrs = [(''det'', MRef 1)], m_setattr = None\<rparr>]
    (MRef 1) ''cam'' = Inr (MRef 2)"
proof -
  have k: "MStr ''mfx'' \<noteq> MNone" by simp
  from leaf_name_stripped[OF collide_full collide_front collide_keys k collide_path(1)]
  show ?thesis
    by (simp only: collide_walk collide_path(2) collide_last prod.inject sum.inject
          simp_thms ex_simps) blast
qed

section \<open>Cycles and the visited set\<close>

lemma set_map_filter_Some:
  "set (List.map_filter f xs) = {y. \<exists>x \<in> set xs. f x = Some y}"
  by (induction xs) (auto simp: map_filter_simps split: option.splits)

lemma set_components:
  "set (components h r) =
     {s. \<exists>c \<in> set (case component_names (h ! r) of None \<Rightarrow> [] | Some ns \<Rightarrow> ns).
           map_of (attrs (h ! r)) c = Some s}"
  by (simp add: components_def set_map_filter_Some)

lemma extends_set: "extends h p p' \<Longrightarrow> set p \<subseteq> set p'"
  by (auto simp: extends_def)

lemma done_ok_mono:
  "done_ok h p c r \<Longrightarrow> set p \<subseteq> set p' \<Longrightarrow> set c \<subseteq> set c' \<Longrightarrow> done_ok h p' c' r"
  unfolding done_ok_def by blast

lemma canonicalD1:
  "canonical h p \<Longrightarrow> x \<in> set p \<Longrightarrow> r < length h \<Longrightarrow> obj_name (h ! r) = Some (fst x) \<Longrightarrow>
     r = snd x"
  unfolding canonical_def by simp

lemma canonicalD2:
  "canonical h p \<Longrightarrow> x \<in> set p \<Longrightarrow> snd x < length h \<Longrightarrow>
     obj_name (h ! snd x) = None \<or> obj_name (h ! snd x) = Some (fst x)"
  unfolding canonical_def by simp

lemma names_distinctD:
  "names_distinct h \<Longrightarrow> a < length h \<Longrightarrow> b < length h \<Longrightarrow> obj_name (h ! a) = Some n \<Longrightarrow>
     obj_name (h ! b) = Some n \<Longrightarrow> a = b"
  unfolding names_distinct_def by simp

lemma identity_eqD:
  "identity_eq h \<Longrightarrow> a < length h \<Longrightarrow> b < length h \<Longrightarrow> a \<noteq> b \<Longrightarrow>
     py_hash (h ! a) = py_hash (h ! b) \<Longrightarrow> \<not> py_equal h a b"
  unfolding identity_eq_def by simp

lemma extends_canonical:
  assumes "extends h p p'" and "canonical h p" and "names_distinct h"
  shows "canonical h p'"
proof -
  from assms(1) obtain added where
    a: "p' = p @ added" "distinct (map fst added)"
       "\<forall>x \<in> set added. snd x < length h \<and> obj_name (h ! snd x) = Some (fst x) \<and>
                          fst x \<notin> fst ` set p"
    unfolding extends_def by blast
  from a(3) have "fst ` set p \<inter> fst ` set added = {}" by force
  moreover from assms(2) have "distinct (map fst p)" by (simp add: canonical_def)
  ultimately have d: "distinct (map fst p')" using a(1,2) by simp
  have 1: "r = snd x" if "x \<in> set p'" "r < length h" "obj_name (h ! r) = Some (fst x)" for x r
  proof -
    from that(1) a(1) consider "x \<in> set p" | "x \<in> set added" by auto
    then show ?thesis
    proof cases
      case 1
      from canonicalD1[OF assms(2) 1 that(2,3)] show ?thesis .
    next
      case 2
      with a(3) have "snd x < length h" "obj_name (h ! snd x) = Some (fst x)" by simp_all
      from names_distinctD[OF assms(3) that(2) this(1) that(3) this(2)] show ?thesis .
    qed
  qed
  have 2: "obj_name (h ! snd x) = None \<or> obj_name (h ! snd x) = Some (fst x)"
    if "x \<in> set p'" "snd x < length h" for x
  proof -
    from that(1) a(1) consider "x \<in> set p" | "x \<in> set added" by auto
    then show ?thesis
    proof cases
      case 1
      from canonicalD2[OF assms(2) 1 that(2)] show ?thesis .
    next
      case 2
      with a(3) show ?thesis by simp
    qed
  qed
  show ?thesis unfolding canonical_def
  proof (intro conjI ballI allI impI)
    show "distinct (map fst p')" by (rule d)
  next
    fix x r assume "x \<in> set p'" "r \<in> {..<length h}" "obj_name (h ! r) = Some (fst x)"
    then show "r = snd x" using 1 by simp
  next
    fix x r assume "x \<in> set p'" "r \<in> {..<length h}" "r = snd x"
    then show "obj_name (h ! r) = None \<or> obj_name (h ! r) = Some (fst x)" using 2 by simp
  qed
qed

lemma set_contains_identity:
  assumes "identity_eq h" and "set cache \<subseteq> {..<length h}" and "set_contains h cache obj = Inr b"
  shows "b \<longleftrightarrow> obj \<in> set cache"
proof -
  from assms(3) obtain hv where v: "obj < length h" and hv: "py_hash (h ! obj) = Some hv"
    and b: "b = list_ex (\<lambda>y. y = obj \<or>
              (y < length h \<and> py_hash (h ! y) = Some hv \<and> py_equal h y obj)) cache"
    by (auto simp: set_contains_def deref_def split: if_splits option.splits)
  have n: "\<not> (y < length h \<and> py_hash (h ! y) = Some hv \<and> py_equal h y obj)"
    if "y \<in> set cache" "y \<noteq> obj" for y
  proof
    assume c: "y < length h \<and> py_hash (h ! y) = Some hv \<and> py_equal h y obj"
    with hv have "py_hash (h ! y) = py_hash (h ! obj)" by simp
    from identity_eqD[OF assms(1) _ v that(2) this] c show False by simp
  qed
  show ?thesis
  proof
    assume b
    with b obtain y where y: "y \<in> set cache"
      "y = obj \<or> (y < length h \<and> py_hash (h ! y) = Some hv \<and> py_equal h y obj)"
      unfolding list_ex_iff by blast
    with n[of y] show "obj \<in> set cache" by (cases "y = obj") simp_all
  next
    assume "obj \<in> set cache"
    with b show b unfolding list_ex_iff by blast
  qed
qed

lemma step_ok_refl: "set (snd st) \<subseteq> {..<length h} \<Longrightarrow> step_ok h st st"
  by (simp add: step_ok_def)

lemma step_ok_trans:
  assumes "step_ok h st st1" and "step_ok h st1 st2" and "set (fst st1) \<subseteq> set (fst st2)"
  shows "step_ok h st st2"
proof -
  from assms(1,2) have a: "set (snd st) \<subseteq> set (snd st1)" "set (snd st1) \<subseteq> set (snd st2)"
    "set (snd st2) \<subseteq> {..<length h}"
    by (simp_all add: step_ok_def)
  have "done_ok h (fst st2) (snd st2) r" if "r \<in> set (snd st2) - set (snd st)" for r
  proof (cases "r \<in> set (snd st1)")
    case True
    with that assms(1) have "done_ok h (fst st1) (snd st1) r" by (simp add: step_ok_def)
    then show ?thesis using assms(3) a(2) by (rule done_ok_mono)
  next
    case False
    with that assms(2) show ?thesis by (simp add: step_ok_def)
  qed
  with a show ?thesis unfolding step_ok_def by blast
qed

lemma accumulate_step:
  "identity_eq h \<Longrightarrow> names_distinct h \<Longrightarrow> accumulate h obj st = Inr st' \<Longrightarrow>
     canonical h (fst st) \<Longrightarrow> set (snd st) \<subseteq> {..<length h} \<Longrightarrow>
     step_ok h st st' \<and> obj \<in> set (snd st')"
  "identity_eq h \<Longrightarrow> names_distinct h \<Longrightarrow> accumulate_comps h obj cs st = Inr st' \<Longrightarrow>
     canonical h (fst st) \<Longrightarrow> set (snd st) \<subseteq> {..<length h} \<Longrightarrow>
     step_ok h st st' \<and>
     (\<forall>c \<in> set cs. \<forall>s. map_of (attrs (h ! obj)) c = Some s \<longrightarrow> s \<in> set (snd st'))"
proof (induction h obj st and h obj cs st arbitrary: st' and st'
       rule: accumulate_accumulate_comps.induct)
  case (1 h obj scope_objs cache)
  note IH = 1(1) and I = 1(2) and N = 1(3) and run = 1(4) and can = 1(5) and val = 1(6)
  show ?case
  proof (cases "set_contains h cache obj")
    case (Inl err)
    with run show ?thesis by simp
  next
    case (Inr b)
    from val have val': "set cache \<subseteq> {..<length h}" by simp
    show ?thesis
    proof (cases b)
      case True
      with run Inr have st': "st' = (scope_objs, cache)" by simp
      from set_contains_identity[OF I val' Inr] True have "obj \<in> set cache" by simp
      with st' val' show ?thesis by (simp add: step_ok_refl)
    next
      case False
      let ?cs = "case component_names (h ! obj) of None \<Rightarrow> [] | Some ns \<Rightarrow> ns"
      from run Inr False obtain p1 c1 n where
        r: "accumulate_comps h obj ?cs (scope_objs, obj # cache) = Inr (p1, c1)"
        and n: "obj_name (h ! obj) = Some n"
        and s: "st' = (if n \<notin> fst ` set p1 then (p1 @ [(n, obj)], c1) else (p1, c1))"
        by (auto split: sum.splits option.splits if_splits)
      from Inr False have v: "obj < length h" by (auto dest: set_contains_False)
      have can1: "canonical h (fst (scope_objs, obj # cache))" using can by simp
      have val1: "set (snd (scope_objs, obj # cache)) \<subseteq> {..<length h}" using val v by simp
      from IH[OF Inr _ I N r can1 val1] False
      have so: "step_ok h (scope_objs, obj # cache) (p1, c1)"
        and cl: "\<forall>c \<in> set ?cs. \<forall>s. map_of (attrs (h ! obj)) c = Some s \<longrightarrow> s \<in> set c1"
        by simp_all
      from so have c1: "set (obj # cache) \<subseteq> set c1" "set c1 \<subseteq> {..<length h}"
        and d1: "\<forall>r \<in> set c1 - set (obj # cache). done_ok h p1 c1 r"
        by (simp_all add: step_ok_def)
      have e1: "extends h scope_objs p1" using accumulate_extends(2)[OF r] by simp
      have canp1: "canonical h p1" using extends_canonical[OF e1 _ N] can by simp
      have f: "fst st' = (if n \<notin> fst ` set p1 then p1 @ [(n, obj)] else p1)" "snd st' = c1"
        using s by simp_all
      have sub: "set p1 \<subseteq> set (fst st')" using f by auto
      have bound: "(n, obj) \<in> set (fst st')"
      proof (cases "n \<notin> fst ` set p1")
        case True
        with f show ?thesis by simp
      next
        case False
        then obtain x where x: "x \<in> set p1" "fst x = n" by auto
        from canonicalD1[OF canp1 x(1) v] n x(2) have "obj = snd x" by simp
        with x(2) have "x = (n, obj)" by (simp add: prod_eq_iff)
        with x(1) have "(n, obj) \<in> set p1" by simp
        with sub show ?thesis by blast
      qed
      have comps: "set (components h obj) \<subseteq> set c1"
        using cl unfolding set_components by blast
      have "done_ok h (fst st') (snd st') r" if "r \<in> set (snd st') - set (snd (scope_objs, cache))" for r
      proof (cases "r = obj")
        case True
        with comps bound n f(2) show ?thesis unfolding done_ok_def by blast
      next
        case False
        with that f(2) have "r \<in> set c1 - set (obj # cache)" by simp
        with d1 have "done_ok h p1 c1 r" by blast
        then show ?thesis using sub f(2) by (auto intro: done_ok_mono)
      qed
      moreover have "set (snd (scope_objs, cache)) \<subseteq> set (snd st')" using c1 f(2) by auto
      moreover have "set (snd st') \<subseteq> {..<length h}" using c1 f(2) by simp
      moreover have "obj \<in> set (snd st')" using c1 f(2) by simp
      ultimately show ?thesis unfolding step_ok_def by blast
    qed
  qed
next
  case (2 h obj st)
  then show ?case by (simp add: step_ok_refl)
next
  case (3 h obj comp_name rest st)
  note IH1 = 3(1) and IH2 = 3(2) and I = 3(3) and N = 3(4) and run = 3(5)
    and can = 3(6) and val = 3(7)
  from run obtain sub_obj st1 where
    g: "getattr h obj comp_name = Inr sub_obj" and a: "accumulate h sub_obj st = Inr st1"
    and r: "accumulate_comps h obj rest st1 = Inr st'"
    by (auto split: sum.splits)
  from IH1[OF g I N a can val] have s1: "step_ok h st st1" and m1: "sub_obj \<in> set (snd st1)"
    by simp_all
  have e1: "extends h (fst st) (fst st1)" by (rule accumulate_extends(1)[OF a])
  have can1: "canonical h (fst st1)" by (rule extends_canonical[OF e1 can N])
  from s1 have val1: "set (snd st1) \<subseteq> {..<length h}" by (simp add: step_ok_def)
  from IH2[OF g a I N r can1 val1] have s2: "step_ok h st1 st'"
    and cl: "\<forall>c \<in> set rest. \<forall>s. map_of (attrs (h ! obj)) c = Some s \<longrightarrow> s \<in> set (snd st')"
    by simp_all
  have e2: "extends h (fst st1) (fst st')" by (rule accumulate_extends(2)[OF r])
  from step_ok_trans[OF s1 s2 extends_set[OF e2]] have s: "step_ok h st st'" .
  from s2 m1 have m: "sub_obj \<in> set (snd st')" by (auto simp: step_ok_def)
  from g have "\<forall>s. map_of (attrs (h ! obj)) comp_name = Some s \<longrightarrow> s = sub_obj"
    by (auto simp: getattr_def deref_def split: if_splits option.splits)
  with m cl s show ?case by auto
qed

lemma expand_loop_step:
  "identity_eq h \<Longrightarrow> names_distinct h \<Longrightarrow> expand_loop h copy st = Inr st' \<Longrightarrow>
     canonical h (fst st) \<Longrightarrow> set (snd st) \<subseteq> {..<length h} \<Longrightarrow>
     (\<forall>r \<in> set (snd st). done_ok h (fst st) (snd st) r) \<Longrightarrow>
     canonical h (fst st') \<and> set (snd st') \<subseteq> {..<length h} \<and>
     (\<forall>r \<in> set (snd st'). done_ok h (fst st') (snd st') r) \<and>
     set (snd st) \<subseteq> set (snd st') \<and>
     (\<forall>x \<in> set copy. isinstance h (snd x) (VType Device) = Inr True \<longrightarrow> snd x \<in> set (snd st'))"
proof (induction copy arbitrary: st)
  case Nil
  then show ?case by simp
next
  case (Cons x copy)
  note I = Cons.prems(1) and N = Cons.prems(2) and run = Cons.prems(3)
    and can = Cons.prems(4) and val = Cons.prems(5) and dn = Cons.prems(6)
  obtain name obj where x: "x = (name, obj)" by (cases x)
  show ?case
  proof (cases "isinstance h obj (VType Device)")
    case (Inl err)
    with run x show ?thesis by simp
  next
    case (Inr b)
    show ?thesis
    proof (cases b)
      case True
      with run x Inr obtain st1 where a: "accumulate h obj st = Inr st1"
        and r: "expand_loop h copy st1 = Inr st'"
        by (auto split: sum.splits)
      from accumulate_step(1)[OF I N a can val]
      have s1: "step_ok h st st1" and m1: "obj \<in> set (snd st1)" by simp_all
      have e1: "extends h (fst st) (fst st1)" by (rule accumulate_extends(1)[OF a])
      have can1: "canonical h (fst st1)" by (rule extends_canonical[OF e1 can N])
      from s1 have val1: "set (snd st1) \<subseteq> {..<length h}" and mono1: "set (snd st) \<subseteq> set (snd st1)"
        by (simp_all add: step_ok_def)
      have dn1: "\<forall>r \<in> set (snd st1). done_ok h (fst st1) (snd st1) r"
      proof
        fix r assume r1: "r \<in> set (snd st1)"
        show "done_ok h (fst st1) (snd st1) r"
        proof (cases "r \<in> set (snd st)")
          case True
          with dn have "done_ok h (fst st) (snd st) r" by blast
          then show ?thesis using extends_set[OF e1] mono1 by (rule done_ok_mono)
        next
          case False
          with r1 s1 show ?thesis by (simp add: step_ok_def)
        qed
      qed
      from Cons.IH[OF I N r can1 val1 dn1]
      have res: "canonical h (fst st')" "set (snd st') \<subseteq> {..<length h}"
        "\<forall>r \<in> set (snd st'). done_ok h (fst st') (snd st') r"
        "set (snd st1) \<subseteq> set (snd st')"
        "\<forall>x \<in> set copy. isinstance h (snd x) (VType Device) = Inr True \<longrightarrow> snd x \<in> set (snd st')"
        by simp_all
      from res(4) m1 have "obj \<in> set (snd st')" by blast
      moreover from res(4) mono1 have "set (snd st) \<subseteq> set (snd st')" by blast
      ultimately show ?thesis using res(1,2,3,5) x by simp
    next
      case False
      with run x Inr have r: "expand_loop h copy st = Inr st'" by simp
      from Cons.IH[OF I N r can val dn] x Inr False show ?thesis by simp
    qed
  qed
qed

lemma count_once:
  "distinct (map fst p) \<Longrightarrow> (n, r) \<in> set p \<Longrightarrow> \<forall>x \<in> set p. snd x = r \<longrightarrow> fst x = n \<Longrightarrow>
     length (filter (\<lambda>x. snd x = r) p) = 1"
proof (induction p)
  case Nil
  then show ?case by simp
next
  case (Cons y p)
  show ?case
  proof (cases "y = (n, r)")
    case True
    from Cons.prems(1) True have "n \<notin> fst ` set p" by simp
    have "\<forall>x \<in> set p. snd x \<noteq> r"
    proof (intro ballI notI)
      fix x assume x: "x \<in> set p" "snd x = r"
      with Cons.prems(3) have "fst x = n" by simp
      with x(1) have "n \<in> fst ` set p" by (metis imageI)
      with \<open>n \<notin> fst ` set p\<close> show False by simp
    qed
    then have "filter (\<lambda>x. snd x = r) p = []" by (simp add: filter_empty_conv)
    with True show ?thesis by simp
  next
    case False
    with Cons.prems(2) have m: "(n, r) \<in> set p" by simp
    from m have "n \<in> fst ` set p" by (metis fst_conv imageI)
    moreover from Cons.prems(1) have "fst y \<notin> fst ` set p" by simp
    ultimately have "fst y \<noteq> n" by blast
    with Cons.prems(3) have "snd y \<noteq> r" by auto
    moreover from Cons.prems(1,3) m have "length (filter (\<lambda>x. snd x = r) p) = 1"
      by (intro Cons.IH) simp_all
    ultimately show ?thesis by simp
  qed
qed

lemma expand_once:
  assumes "identity_eq h" and "names_distinct h" and "canonical h scope_objs"
      and "expand h scope_objs = Inr scope_objs'"
      and "reach h scope_objs r"
  shows "length (filter (\<lambda>x. snd x = r) scope_objs') = 1"
proof -
  from assms(4) obtain c where l: "expand_loop h scope_objs (scope_objs, []) = Inr (scope_objs', c)"
    by (auto simp: expand_def split: sum.splits)
  from expand_loop_step[OF assms(1,2) l] assms(3)
  have can: "canonical h scope_objs'" and val: "set c \<subseteq> {..<length h}"
    and dn: "\<forall>r \<in> set c. done_ok h scope_objs' c r"
    and dev: "\<forall>x \<in> set scope_objs. isinstance h (snd x) (VType Device) = Inr True \<longrightarrow> snd x \<in> set c"
    by simp_all
  from assms(5) have "r \<in> set c"
  proof (induction rule: reach.induct)
    case (top x)
    with dev show ?case by blast
  next
    case (sub r s)
    with dn have "set (components h r) \<subseteq> set c" unfolding done_ok_def by blast
    with sub(2) show ?case by blast
  qed
  with dn obtain n where n: "obj_name (h ! r) = Some n" "(n, r) \<in> set scope_objs'"
    unfolding done_ok_def by blast
  from \<open>r \<in> set c\<close> val have v: "r < length h" by auto
  have "\<forall>x \<in> set scope_objs'. snd x = r \<longrightarrow> fst x = n"
  proof (intro ballI impI)
    fix x assume x: "x \<in> set scope_objs'" "snd x = r"
    with v have "snd x < length h" by simp
    from canonicalD2[OF can x(1) this] x(2) n(1) show "fst x = n" by simp
  qed
  moreover from can have "distinct (map fst scope_objs')" by (simp add: canonical_def)
  ultimately show ?thesis using n(2) count_once[of scope_objs' n r] by blast
qed

lemma count_list_filter: "count_list (map snd p) r = length (filter (\<lambda>x. snd x = r) p)"
  by (induction p) auto

lemma expand_cycle_alias:
  "expand cycle_heap [(''x'', 0)] = Inr [(''x'', 0), (''b'', 1), (''a'', 0)]"
  by (simp add: expand_def cycle_heap_def plain_obj_def isinstance_def deref_def
        set_contains_def getattr_def Device_def FunctionType_def py_equal_def)

text \<open>
  C1, as stated, fails: the device \<^verbatim>\<open>a\<close> of the cycle is bound in the scope as \<^verbatim>\<open>x\<close>;
  the expansion binds it once more under its \<^verbatim>\<open>name\<close>, so it is in the resulting
  dictionary twice.
\<close>

theorem expand_alias_counterexample:
  "expand cycle_heap [(''x'', 0)] = Inr [(''x'', 0), (''b'', 1), (''a'', 0)] \<and>
   count_list (map snd [(''x'', 0::nat), (''b'', 1), (''a'', 0)]) 0 = 2"
  by (simp add: expand_cycle_alias)

lemma cycle_identity_eq: "identity_eq cycle_heap"
  by (simp add: identity_eq_def cycle_heap_def plain_obj_def lessThan_Suc numeral_eq_Suc)

lemma cycle_names_distinct: "names_distinct cycle_heap"
  by (simp add: names_distinct_def cycle_heap_def plain_obj_def lessThan_Suc numeral_eq_Suc)

lemma cycle_canonical: "canonical cycle_heap [(''a'', 0)]"
  by (simp add: canonical_def cycle_heap_def plain_obj_def lessThan_Suc numeral_eq_Suc)

lemma cycle_reach_a: "reach cycle_heap [(''a'', 0)] 0"
  using reach.top[of "(''a'', 0)" "[(''a'', 0)]" cycle_heap]
  by (simp add: isinstance_def deref_def cycle_heap_def plain_obj_def Device_def)

lemma cycle_reach_b: "reach cycle_heap [(''a'', 0)] 1"
  using reach.sub[OF cycle_reach_a, of 1]
  by (simp add: components_def List.map_filter_def cycle_heap_def plain_obj_def)

lemma well_formedD:
  assumes "well_formed h S" and "r \<in> S"
  shows "r < length h" and "\<exists>hv. py_hash (h ! r) = Some hv" and "\<exists>n. obj_name (h ! r) = Some n"
    and "c \<in> set (case component_names (h ! r) of None \<Rightarrow> [] | Some ns \<Rightarrow> ns) \<Longrightarrow>
           \<exists>s \<in> S. map_of (attrs (h ! r)) c = Some s"
  using assms unfolding well_formed_def by auto

lemma accumulate_returns:
  "well_formed h S \<Longrightarrow> obj \<in> S \<Longrightarrow> \<exists>st'. accumulate h obj st = Inr st'"
  "well_formed h S \<Longrightarrow> obj \<in> S \<Longrightarrow>
     set cs \<subseteq> set (case component_names (h ! obj) of None \<Rightarrow> [] | Some ns \<Rightarrow> ns) \<Longrightarrow>
     \<exists>st'. accumulate_comps h obj cs st = Inr st'"
proof (induction h obj st and h obj cs st rule: accumulate_accumulate_comps.induct)
  case (1 h obj scope_objs cache)
  note IH = 1(1) and wf = 1(2) and mem = 1(3)
  from well_formedD(1,2,3)[OF wf mem] obtain hv n where
    v: "obj < length h" and hv: "py_hash (h ! obj) = Some hv" and n: "obj_name (h ! obj) = Some n"
    by blast
  from v hv obtain b where b: "set_contains h cache obj = Inr b"
    by (simp add: set_contains_def deref_def)
  show ?case
  proof (cases b)
    case True
    with b show ?thesis by simp
  next
    case False
    let ?cs = "case component_names (h ! obj) of None \<Rightarrow> [] | Some ns \<Rightarrow> ns"
    from IH[OF b _ wf mem] False obtain st1 where
      "accumulate_comps h obj ?cs (scope_objs, obj # cache) = Inr st1" by auto
    with b False n show ?thesis by (cases st1) simp
  qed
next
  case (2 h obj st)
  show ?case by simp
next
  case (3 h obj comp_name rest st)
  note IH1 = 3(1) and IH2 = 3(2) and wf = 3(3) and mem = 3(4) and cs = 3(5)
  from cs have "comp_name \<in> set (case component_names (h ! obj) of None \<Rightarrow> [] | Some ns \<Rightarrow> ns)"
    by simp
  from well_formedD(4)[OF wf mem this] obtain s where
    s: "s \<in> S" "map_of (attrs (h ! obj)) comp_name = Some s" by blast
  from well_formedD(1)[OF wf mem] s(2) have g: "getattr h obj comp_name = Inr s"
    by (simp add: getattr_def deref_def)
  from IH1[OF g wf s(1)] obtain st1 where a: "accumulate h s st = Inr st1" by blast
  from cs have "set rest \<subseteq> set (case component_names (h ! obj) of None \<Rightarrow> [] | Some ns \<Rightarrow> ns)"
    by simp
  from IH2[OF g a wf mem this] obtain st' where "accumulate_comps h obj rest st1 = Inr st'"
    by blast
  with g a show ?case by simp
qed

lemma expand_loop_returns:
  "well_formed h S \<Longrightarrow>
     \<forall>x \<in> set copy. snd x < length h \<and>
        (isinstance h (snd x) (VType Device) = Inr True \<longrightarrow> snd x \<in> S) \<Longrightarrow>
     \<exists>st'. expand_loop h copy st = Inr st'"
proof (induction copy arbitrary: st)
  case Nil
  show ?case by simp
next
  case (Cons x copy)
  obtain name obj where x: "x = (name, obj)" by (cases x)
  from Cons.prems(2) x have v: "obj < length h"
    and d: "isinstance h obj (VType Device) = Inr True \<longrightarrow> obj \<in> S" by simp_all
  from v obtain b where b: "isinstance h obj (VType Device) = Inr b"
    by (simp add: isinstance_def deref_def)
  from Cons.prems(2) have rest: "\<forall>x \<in> set copy. snd x < length h \<and>
        (isinstance h (snd x) (VType Device) = Inr True \<longrightarrow> snd x \<in> S)" by simp
  show ?case
  proof (cases b)
    case True
    with b d have "obj \<in> S" by simp
    from accumulate_returns(1)[OF Cons.prems(1) this] obtain st1 where
      a: "accumulate h obj st = Inr st1" by blast
    from Cons.IH[OF Cons.prems(1) rest] obtain st' where "expand_loop h copy st1 = Inr st'"
      by blast
    with x b True a show ?thesis by simp
  next
    case False
    from Cons.IH[OF Cons.prems(1) rest] obtain st' where "expand_loop h copy st = Inr st'"
      by blast
    with x b False show ?thesis by simp
  qed
qed

text \<open>
  C1, as amended. On every object graph, cyclic or not, the expansion terminates:
  \<open>accumulate\<close> is a total function by the termination proof above. When no two
  objects compare equal or share a \<^verbatim>\<open>name\<close>, the scope is canonical and the objects
  in reach are well formed, the expansion returns a dictionary in which every object
  reached from a device of the scope, so every object on a cycle, is bound exactly
  once.
\<close>

theorem expand_exactly_once:
  assumes "identity_eq h" and "names_distinct h" and "canonical h scope_objs"
      and "well_formed h S"
      and "\<forall>x \<in> set scope_objs. snd x < length h \<and>
             (isinstance h (snd x) (VType Device) = Inr True \<longrightarrow> snd x \<in> S)"
  shows "\<exists>scope_objs'. expand h scope_objs = Inr scope_objs' \<and>
           (\<forall>r. reach h scope_objs r \<longrightarrow> count_list (map snd scope_objs') r = 1)"
proof -
  from expand_loop_returns[OF assms(4,5)] obtain st' where
    "expand_loop h scope_objs (scope_objs, []) = Inr st'" by blast
  then have e: "expand h scope_objs = Inr (fst st')"
    by (simp add: expand_def split: prod.splits)
  have "\<forall>r. reach h scope_objs r \<longrightarrow> count_list (map snd (fst st')) r = 1"
    using expand_once[OF assms(1,2,3) e] by (simp add: count_list_filter)
  with e show ?thesis by blast
qed

lemma cycle_well_formed: "well_formed cycle_heap {0, 1}"
  by (simp add: well_formed_def cycle_heap_def plain_obj_def)

text \<open>The two devices that list each other, the first bound as \<^verbatim>\<open>a\<close>: each is in the
  result once.\<close>

theorem expand_exactly_once_witness:
  "expand cycle_heap [(''a'', 0)] = Inr [(''a'', 0), (''b'', 1)] \<and>
   count_list (map snd [(''a'', 0::nat), (''b'', 1)]) 0 = 1 \<and>
   count_list (map snd [(''a'', 0::nat), (''b'', 1)]) 1 = 1"
proof -
  have p: "\<forall>x \<in> set [(''a'', 0::nat)]. snd x < length cycle_heap \<and>
             (isinstance cycle_heap (snd x) (VType Device) = Inr True \<longrightarrow> snd x \<in> {0, 1})"
    by (simp add: cycle_heap_def)
  from expand_exactly_once[OF cycle_identity_eq cycle_names_distinct cycle_canonical
         cycle_well_formed p]
  have "\<forall>r. reach cycle_heap [(''a'', 0)] r \<longrightarrow>
             count_list (map snd [(''a'', 0::nat), (''b'', 1)]) r = 1"
    by (simp add: expand_cycle_a)
  with cycle_reach_a cycle_reach_b expand_cycle_a show ?thesis by blast
qed

lemma accumulate_cache_mono:
  "accumulate h obj st = Inr st' \<Longrightarrow> set (snd st) \<subseteq> set (snd st')"
  "accumulate_comps h obj cs st = Inr st' \<Longrightarrow> set (snd st) \<subseteq> set (snd st')"
proof (induction h obj st and h obj cs st arbitrary: st' and st'
       rule: accumulate_accumulate_comps.induct)
  case (1 h obj scope_objs cache)
  show ?case
  proof (cases "set_contains h cache obj")
    case (Inl err)
    with 1(2) show ?thesis by simp
  next
    case (Inr b)
    show ?thesis
    proof (cases b)
      case True
      with 1(2) Inr show ?thesis by auto
    next
      case False
      let ?cs = "case component_names (h ! obj) of None \<Rightarrow> [] | Some ns \<Rightarrow> ns"
      from 1(2) Inr False obtain st1 where
        r: "accumulate_comps h obj ?cs (scope_objs, obj # cache) = Inr st1"
        and s: "snd st' = snd st1"
        by (auto split: sum.splits option.splits if_splits)
      from 1(1)[OF Inr _ r] False have "set (obj # cache) \<subseteq> set (snd st1)" by simp
      with s show ?thesis by auto
    qed
  qed
next
  case (2 h obj st)
  then show ?case by simp
next
  case (3 h obj comp_name rest st)
  from 3(3) obtain sub_obj st1 where
    g: "getattr h obj comp_name = Inr sub_obj" and a: "accumulate h sub_obj st = Inr st1"
    and r: "accumulate_comps h obj rest st1 = Inr st'"
    by (auto split: sum.splits)
  from 3(1)[OF g a] 3(2)[OF g a r] show ?case by blast
qed

lemma accumulate_visits:
  assumes "set_contains h cache obj = Inr False"
      and "accumulate h obj (scope_objs, cache) = Inr st'"
  shows "obj \<in> set (snd st') \<and> obj \<notin> set cache"
proof -
  let ?cs = "case component_names (h ! obj) of None \<Rightarrow> [] | Some ns \<Rightarrow> ns"
  from assms obtain st1 where
    r: "accumulate_comps h obj ?cs (scope_objs, obj # cache) = Inr st1"
    and s: "snd st' = snd st1"
    by (auto split: sum.splits option.splits if_splits)
  from accumulate_cache_mono(2)[OF r] s have "obj \<in> set (snd st')" by simp
  with set_contains_False[OF assms(1)] show ?thesis by simp
qed

text \<open>
  C7, as amended. \<open>accumulate\<close> skips an object, returning the dictionary and the
  cache as they are, exactly when the membership test of the set succeeds: the cache
  holds the object itself, or an element with the same hash that compares equal to
  it. An object for which the test fails is visited: it is in the cache afterwards.
\<close>

theorem accumulate_skip_iff:
  "(accumulate h obj (scope_objs, cache) = Inr (scope_objs, cache)
      \<longleftrightarrow> set_contains h cache obj = Inr True) \<and>
   (set_contains h cache obj = Inr True
      \<longleftrightarrow> obj < length h \<and>
          (\<exists>hv. py_hash (h ! obj) = Some hv \<and>
             (\<exists>y \<in> set cache. y = obj \<or>
                (y < length h \<and> py_hash (h ! y) = Some hv \<and> py_equal h y obj)))) \<and>
   (set_contains h cache obj = Inr False \<longrightarrow>
      (\<forall>st'. accumulate h obj (scope_objs, cache) = Inr st' \<longrightarrow> obj \<in> set (snd st')))"
proof (intro conjI)
  show "accumulate h obj (scope_objs, cache) = Inr (scope_objs, cache)
          \<longleftrightarrow> set_contains h cache obj = Inr True"
  proof
    assume a: "accumulate h obj (scope_objs, cache) = Inr (scope_objs, cache)"
    show "set_contains h cache obj = Inr True"
    proof (cases "set_contains h cache obj")
      case (Inl err)
      with a show ?thesis by simp
    next
      case (Inr b)
      show ?thesis
      proof (cases b)
        case True
        with Inr show ?thesis by simp
      next
        case False
        with Inr have "set_contains h cache obj = Inr False" by simp
        from accumulate_visits[OF this a] show ?thesis by simp
      qed
    qed
  next
    assume "set_contains h cache obj = Inr True"
    then show "accumulate h obj (scope_objs, cache) = Inr (scope_objs, cache)" by simp
  qed
next
  show "set_contains h cache obj = Inr True
      \<longleftrightarrow> obj < length h \<and>
          (\<exists>hv. py_hash (h ! obj) = Some hv \<and>
             (\<exists>y \<in> set cache. y = obj \<or>
                (y < length h \<and> py_hash (h ! y) = Some hv \<and> py_equal h y obj)))"
    by (auto simp: set_contains_def deref_def list_ex_iff split: option.splits)
next
  show "set_contains h cache obj = Inr False \<longrightarrow>
      (\<forall>st'. accumulate h obj (scope_objs, cache) = Inr st' \<longrightarrow> obj \<in> set (snd st'))"
    using accumulate_visits by blast
qed

lemma equal_heap_skip:
  "accumulate equal_heap 2 ([(''a'', 0), (''l'', 1)], [1, 0]) = Inr ([(''a'', 0), (''l'', 1)], [1, 0])"
  by (simp add: equal_heap_def plain_obj_def set_contains_def deref_def py_equal_def)

lemma expand_equal_heap: "expand equal_heap [(''a'', 0)] = Inr [(''a'', 0), (''l'', 1)]"
  by (simp add: expand_def equal_heap_def plain_obj_def isinstance_def deref_def
        set_contains_def getattr_def Device_def py_equal_def)

text \<open>
  C7, as stated, fails: the components \<^verbatim>\<open>l\<close> and \<^verbatim>\<open>r\<close> are different objects that
  compare equal. Once \<^verbatim>\<open>l\<close> is visited, \<^verbatim>\<open>r\<close> is skipped though it is not in the
  cache, and the expansion of the device never binds it.
\<close>

theorem skip_by_identity_counterexample:
  "accumulate equal_heap 2 ([(''a'', 0), (''l'', 1)], [1, 0]) =
     Inr ([(''a'', 0), (''l'', 1)], [1, 0]) \<and>
   (2::nat) \<notin> set [1, 0] \<and>
   expand equal_heap [(''a'', 0)] = Inr [(''a'', 0), (''l'', 1)]"
proof (intro conjI)
  show "accumulate equal_heap 2 ([(''a'', 0), (''l'', 1)], [1, 0]) =
          Inr ([(''a'', 0), (''l'', 1)], [1, 0])"
    by (rule equal_heap_skip)
  show "(2::nat) \<notin> set [1, 0]" by simp
  show "expand equal_heap [(''a'', 0)] = Inr [(''a'', 0), (''l'', 1)]"
    by (rule expand_equal_heap)
qed

text \<open>With \<^verbatim>\<open>l\<close> in the cache the test succeeds for \<^verbatim>\<open>r\<close>; with only the device in the
  cache it fails for \<^verbatim>\<open>l\<close>, which is then visited and bound.\<close>

theorem accumulate_skip_iff_witness:
  "set_contains equal_heap [1, 0] 2 = Inr True \<and>
   set_contains equal_heap [0] 1 = Inr False \<and>
   accumulate equal_heap 1 ([(''a'', 0)], [0]) = Inr ([(''a'', 0), (''l'', 1)], [1, 0])"
proof -
  from accumulate_skip_iff[of equal_heap 2 "[(''a'', 0), (''l'', 1)]" "[1, 0]"] equal_heap_skip
  have 1: "set_contains equal_heap [1, 0] 2 = Inr True" by blast
  have 2: "set_contains equal_heap [0] 1 = Inr False"
    by (simp add: equal_heap_def plain_obj_def set_contains_def deref_def py_equal_def)
  have 3: "accumulate equal_heap 1 ([(''a'', 0)], [0]) = Inr ([(''a'', 0), (''l'', 1)], [1, 0])"
    by (simp add: equal_heap_def plain_obj_def set_contains_def deref_def py_equal_def)
  from 1 2 3 show ?thesis by blast
qed

end
